theory Spec2Isabelle
  imports Main "HOL-Library.Word" "HOL-Library.Signed_Division" "HOL-Library.Monad_Syntax"
begin

unbundle bit_operations_syntax

section \<open>Machine integers and constants of \<^verbatim>\<open>bboard.hpp\<close>\<close>

text \<open>
  The packed encodings (board cells, \<^verbatim>\<open>typedef int Bomb\<close>) are C++ \<^verbatim>\<open>int\<close> values that
  the source manipulates bit by bit; they are modelled as 32-bit words: \<open>+\<close> and \<open>-\<close> wrap,
  \<open><s\<close> is the signed comparison, \<open>push_bit\<close> is \<^verbatim>\<open><<\<close> and \<open>signed_drop_bit\<close> is \<^verbatim>\<open>>>\<close>
  on a signed operand.
\<close>

type_synonym cint = "32 word"

definition AGENT_COUNT :: int where
  "AGENT_COUNT = 4"

definition BOARD_SIZE :: int where
  "BOARD_SIZE = 11"

definition BOMB_DEFAULT_STRENGTH :: int where
  "BOMB_DEFAULT_STRENGTH = 1"

definition FLAME_LIFETIME :: int where
  "FLAME_LIFETIME = 4"

definition MAX_BOMBS_PER_AGENT :: int where
  "MAX_BOMBS_PER_AGENT = 5"

definition MAX_BOMBS :: int where
  "MAX_BOMBS = AGENT_COUNT * MAX_BOMBS_PER_AGENT"

section \<open>Board cell encoding: \<^verbatim>\<open>enum Item\<close> and the classification macros\<close>

text \<open>
  \<^verbatim>\<open>Item\<close> is an unscoped enumeration; the source stores its values, and sums such as
  \<^verbatim>\<open>WOOD + flag\<close>, in \<^verbatim>\<open>int board[][]\<close> and hands them to the macros as integers.
\<close>

type_synonym Item = cint

definition PASSAGE :: Item where
  "PASSAGE = 0"

definition RIGID :: Item where
  "RIGID = 1"

definition WOOD :: Item where
  "WOOD = push_bit 8 2"

definition BOMB :: Item where
  "BOMB = 3"

definition FLAMES :: Item where
  "FLAMES = push_bit 16 4"

definition FOG :: Item where
  "FOG = 5"

definition EXTRABOMB :: Item where
  "EXTRABOMB = 6"

definition INCRRANGE :: Item where
  "INCRRANGE = 7"

definition KICK :: Item where
  "KICK = 8"

definition AGENTDUMMY :: Item where
  "AGENTDUMMY = 9"

definition AGENT0 :: Item where
  "AGENT0 = push_bit 24 1"

definition AGENT1 :: Item where
  "AGENT1 = push_bit 24 1 + 1"

definition AGENT2 :: Item where
  "AGENT2 = push_bit 24 1 + 2"

definition AGENT3 :: Item where
  "AGENT3 = push_bit 24 1 + 3"

definition IS_WOOD :: "cint \<Rightarrow> bool" where
  "IS_WOOD x = (signed_drop_bit 8 x = 2)"

definition IS_POWERUP :: "cint \<Rightarrow> bool" where
  "IS_POWERUP x = (5 <s x \<and> x <s 9)"

definition IS_WALKABLE :: "cint \<Rightarrow> bool" where
  "IS_WALKABLE x = (IS_POWERUP x \<or> x = 0)"

definition IS_FLAME :: "cint \<Rightarrow> bool" where
  "IS_FLAME x = (signed_drop_bit 16 x = 4)"

definition FLAME_ID :: "cint \<Rightarrow> cint" where
  "FLAME_ID x = signed_drop_bit 3 (x AND 0xFFFF)"

definition FLAME_POWFLAG :: "cint \<Rightarrow> cint" where
  "FLAME_POWFLAG x = x AND 3"

definition WOOD_POWFLAG :: "cint \<Rightarrow> cint" where
  "WOOD_POWFLAG x = x AND 3"

section \<open>Packed bombs\<close>

type_synonym Bomb = cint

definition BMB_POS :: "Bomb \<Rightarrow> cint" where
  "BMB_POS x = x AND 0xFF"

definition BMB_POS_X :: "Bomb \<Rightarrow> cint" where
  "BMB_POS_X x = x AND 0xF"

definition BMB_POS_Y :: "Bomb \<Rightarrow> cint" where
  "BMB_POS_Y x = signed_drop_bit 4 (x AND 0xF0)"

definition BMB_ID :: "Bomb \<Rightarrow> cint" where
  "BMB_ID x = signed_drop_bit 8 (x AND 0xF00)"

definition BMB_STRENGTH :: "Bomb \<Rightarrow> cint" where
  "BMB_STRENGTH x = signed_drop_bit 12 (x AND 0xF000)"

definition BMB_TIME :: "Bomb \<Rightarrow> cint" where
  "BMB_TIME x = signed_drop_bit 16 (x AND 0xF0000)"

definition cmask0_4 :: cint where
  "cmask0_4 = NOT 0xF"

definition cmask4_8 :: cint where
  "cmask4_8 = NOT 0xF0"

definition cmask8_12 :: cint where
  "cmask8_12 = NOT 0xF00"

definition cmask12_16 :: cint where
  "cmask12_16 = NOT 0xF000"

definition cmask16_r :: cint where
  "cmask16_r = 0xFFFF"

definition ReduceBombTimer :: "Bomb \<Rightarrow> Bomb" where
  "ReduceBombTimer bomb = bomb - push_bit 16 1"

definition SetBombPosition :: "Bomb \<Rightarrow> cint \<Rightarrow> cint \<Rightarrow> Bomb" where
  "SetBombPosition bomb x y = (bomb AND cmask0_4 AND cmask4_8) + x + push_bit 4 y"

definition SetBombID :: "Bomb \<Rightarrow> cint \<Rightarrow> Bomb" where
  "SetBombID bomb ident = (bomb AND cmask8_12) + push_bit 8 ident"

definition SetBombStrength :: "Bomb \<Rightarrow> cint \<Rightarrow> Bomb" where
  "SetBombStrength bomb strength = (bomb AND cmask12_16) + push_bit 12 strength"

definition SetBombTime :: "Bomb \<Rightarrow> cint \<Rightarrow> Bomb" where
  "SetBombTime bomb time = (bomb AND cmask16_r) + push_bit 16 time"


section \<open>C++ arrays and remainders\<close>

text \<open>
  A C++ array of fixed size is a list of that length. Indexing outside the array is
  undefined behaviour in the source; the model makes it the result \<open>None\<close>, and so it does
  for a remainder by zero. On \<open>int\<close>, \<open>smod\<close> is the truncating remainder of C++'s \<^verbatim>\<open>%\<close>.
  The indices and counts of a queue are \<^verbatim>\<open>int\<close> in the source and unbounded integers here:
  on a queue whose front index and count are within its capacity the values computed from
  them stay between \<open>-1\<close> and twice the array size, far from the 32-bit limits.
  \<^verbatim>\<open>State::aliveAgents\<close> is a 32-bit \<^verbatim>\<open>int\<close> that a caller may set to any value; the model
  keeps it as an integer between \<open>-2^31\<close> and \<open>2^31 - 1\<close> and writes out the two's-complement
  wrap-around of its decrement: \<open>int32_wrap\<close> maps \<open>-2^31 - 1\<close> to \<open>2^31 - 1\<close>.
\<close>

definition array_read :: "'a list \<Rightarrow> int \<Rightarrow> 'a option" where
  "array_read a i = (if 0 \<le> i \<and> i < int (length a) then Some (a ! nat i) else None)"

definition array_write :: "'a list \<Rightarrow> int \<Rightarrow> 'a \<Rightarrow> 'a list option" where
  "array_write a i v = (if 0 \<le> i \<and> i < int (length a) then Some (a[nat i := v]) else None)"

definition c_mod :: "int \<Rightarrow> int \<Rightarrow> int option" where
  "c_mod a b = (if b = 0 then None else Some (a smod b))"

definition int32_wrap :: "int \<Rightarrow> int" where
  "int32_wrap v = signed_take_bit 31 v"

definition is_int32 :: "int \<Rightarrow> bool" where
  "is_int32 v \<longleftrightarrow> - (2 ^ 31) \<le> v \<and> v < 2 ^ 31"

section \<open>\<^verbatim>\<open>FixedQueue\<close>: the circular buffer\<close>

text \<open>
  \<^verbatim>\<open>template<typename T, int TSize> struct FixedQueue\<close> with \<^verbatim>\<open>T queue[TSize]\<close>: the template
  parameter \<^verbatim>\<open>TSize\<close> is the length of the array.
\<close>

record 'a FixedQueue =
  queue :: "'a list"
  index :: int
  count :: int

definition TSize :: "'a FixedQueue \<Rightarrow> int" where
  "TSize q = int (length (queue q))"

text \<open>The member initialisers \<^verbatim>\<open>index = 0\<close>, \<^verbatim>\<open>count = 0\<close>; the array itself is not initialised.\<close>

definition FixedQueue_init :: "'a list \<Rightarrow> 'a FixedQueue" where
  "FixedQueue_init storage = \<lparr>queue = storage, index = 0, count = 0\<rparr>"

definition RemainingCapacity :: "'a FixedQueue \<Rightarrow> int" where
  "RemainingCapacity q = TSize q - count q"

text \<open>
  \<^verbatim>\<open>PopElem\<close> returns a reference to the slot of the old front; the model returns the value
  read through that reference when the call returns, together with the updated queue.
\<close>

definition PopElem :: "'a FixedQueue \<Rightarrow> ('a \<times> 'a FixedQueue) option" where
  "PopElem q = do {
     let x = index q;
     i \<leftarrow> c_mod (index q + 1) (TSize q);
     let q' = q\<lparr>index := i, count := count q - 1\<rparr>;
     j \<leftarrow> c_mod x (TSize q');
     v \<leftarrow> array_read (queue q') j;
     Some (v, q')
   }"

text \<open>\<^verbatim>\<open>NextPos\<close> returns a reference to a slot: the model returns the position of that slot.\<close>

definition NextPos :: "'a FixedQueue \<Rightarrow> int option" where
  "NextPos q = do {
     j \<leftarrow> c_mod (index q + count q) (TSize q);
     if 0 \<le> j \<and> j < TSize q then Some j else None
   }"

definition AddElem :: "'a FixedQueue \<Rightarrow> 'a \<Rightarrow> 'a FixedQueue option" where
  "AddElem q elem = do {
     p \<leftarrow> NextPos q;
     a \<leftarrow> array_write (queue q) p elem;
     Some (q\<lparr>queue := a, count := count q + 1\<rparr>)
   }"

text \<open>The \<^verbatim>\<open>for\<close> loop of \<^verbatim>\<open>RemoveAt\<close>, started at \<open>i\<close>.\<close>

function RemoveAt_loop :: "'a FixedQueue \<Rightarrow> int \<Rightarrow> 'a FixedQueue option" where
  "RemoveAt_loop q i =
     (if i < count q then do {
        translatedIndex \<leftarrow> c_mod (index q + i) (TSize q);
        v \<leftarrow> array_read (queue q) translatedIndex;
        dst \<leftarrow> c_mod (translatedIndex - 1 + TSize q) (TSize q);
        a \<leftarrow> array_write (queue q) dst v;
        RemoveAt_loop (q\<lparr>queue := a\<rparr>) (i + 1)
      } else Some q)"
  by pat_completeness auto
termination
  by (relation "measure (\<lambda>(q, i). nat (count q - i))") auto

definition RemoveAt :: "'a FixedQueue \<Rightarrow> int \<Rightarrow> 'a FixedQueue option" where
  "RemoveAt q removeAt = do {
     q' \<leftarrow> RemoveAt_loop q (removeAt + 1);
     Some (q'\<lparr>count := count q' - 1\<rparr>)
   }"

text \<open>\<^verbatim>\<open>operator[]\<close> of the queue, read as a value.\<close>

definition operator_index :: "'a FixedQueue \<Rightarrow> int \<Rightarrow> 'a option" where
  "operator_index q offset = do {
     j \<leftarrow> c_mod (index q + offset) (TSize q);
     array_read (queue q) j
   }"

text \<open>Successive calls: \<^verbatim>\<open>AddElem\<close> for each element of a list, and \<open>n\<close> times \<^verbatim>\<open>PopElem\<close>,
  collecting the returned elements in the order of the calls.\<close>

fun AddElems :: "'a FixedQueue \<Rightarrow> 'a list \<Rightarrow> 'a FixedQueue option" where
  "AddElems q [] = Some q"
| "AddElems q (e # es) = do { q' \<leftarrow> AddElem q e; AddElems q' es }"

fun PopElems :: "'a FixedQueue \<Rightarrow> nat \<Rightarrow> ('a list \<times> 'a FixedQueue) option" where
  "PopElems q 0 = Some ([], q)"
| "PopElems q (Suc n) = do {
     (v, q') \<leftarrow> PopElem q;
     (vs, q'') \<leftarrow> PopElems q' n;
     Some (v # vs, q'')
   }"

text \<open>
  A queue holding \<open>count\<close> elements: the front index is a position of the array and the
  count is between zero and the capacity.
\<close>

definition queue_ok :: "'a FixedQueue \<Rightarrow> bool" where
  "queue_ok q \<longleftrightarrow> 0 \<le> index q \<and> index q < TSize q \<and> 0 \<le> count q \<and> count q \<le> TSize q"

text \<open>
  The array position of the logical position \<open>j\<close> of a queue (0 is the front), and the element
  stored there.
\<close>

definition slot :: "'a FixedQueue \<Rightarrow> int \<Rightarrow> nat" where
  "slot q j = nat ((index q + j) mod TSize q)"

definition cell :: "'a FixedQueue \<Rightarrow> int \<Rightarrow> 'a" where
  "cell q j = queue q ! slot q j"

text \<open>
  The logical contents of a queue: what \<^verbatim>\<open>operator[]\<close> returns at the offsets 0 to
  \<open>count - 1\<close>, front first.
\<close>

definition contents :: "'a FixedQueue \<Rightarrow> 'a option list" where
  "contents q = map (\<lambda>j. operator_index q (int j)) [0..<nat (count q)]"

section \<open>Positions, agents, flames and the board state\<close>

text \<open>
  The fields \<^verbatim>\<open>x\<close> and \<^verbatim>\<open>y\<close> of \<^verbatim>\<open>Position\<close> and \<^verbatim>\<open>AgentInfo\<close> are named \<open>pos_x\<close>, \<open>pos_y\<close>,
  \<open>agent_x\<close> and \<open>agent_y\<close>, and the fields of \<^verbatim>\<open>Flame\<close> carry the prefix \<open>flame_\<close>: a record
  field is a constant of the theory.
\<close>

record Position =
  pos_x :: int
  pos_y :: int

record AgentInfo =
  agent_x :: int
  agent_y :: int
  bombCount :: int
  maxBombCount :: int
  bombStrength :: int
  canKick :: bool
  dead :: bool

record Flame =
  flame_position :: Position
  flame_timeLeft :: int
  flame_strength :: int

record State =
  board :: "cint list list"
  timeStep :: int
  aliveAgents :: int
  agents :: "AgentInfo list"
  bombs :: "Bomb FixedQueue"
  flames :: "Flame FixedQueue"

text \<open>
  The default member initialisers. What the source leaves uninitialised (the board, the
  agents' positions, the storage of the two queues) is a parameter.
\<close>

definition AgentInfo_init :: "int \<times> int \<Rightarrow> AgentInfo" where
  "AgentInfo_init p = \<lparr>agent_x = fst p, agent_y = snd p, bombCount = 0, maxBombCount = 1,
     bombStrength = BOMB_DEFAULT_STRENGTH, canKick = False, dead = False\<rparr>"

definition State_init ::
  "cint list list \<Rightarrow> (int \<times> int) list \<Rightarrow> Bomb list \<Rightarrow> Flame list \<Rightarrow> State" where
  "State_init b ps bs fs = \<lparr>board = b, timeStep = 0, aliveAgents = AGENT_COUNT,
     agents = map AgentInfo_init ps, bombs = FixedQueue_init bs, flames = FixedQueue_init fs\<rparr>"

text \<open>The shape of the arrays of a \<^verbatim>\<open>State\<close>: \<^verbatim>\<open>board[BOARD_SIZE][BOARD_SIZE]\<close>,
  \<^verbatim>\<open>agents[AGENT_COUNT]\<close> and two queues of capacity \<^verbatim>\<open>MAX_BOMBS\<close>.\<close>

definition State_shape :: "State \<Rightarrow> bool" where
  "State_shape s \<longleftrightarrow>
     int (length (board s)) = BOARD_SIZE \<and>
     list_all (\<lambda>row. int (length row) = BOARD_SIZE) (board s) \<and>
     int (length (agents s)) = AGENT_COUNT \<and>
     TSize (bombs s) = MAX_BOMBS \<and> TSize (flames s) = MAX_BOMBS"

definition PutItem :: "State \<Rightarrow> int \<Rightarrow> int \<Rightarrow> Item \<Rightarrow> State option" where
  "PutItem s x y item = do {
     row \<leftarrow> array_read (board s) y;
     row' \<leftarrow> array_write row x item;
     b \<leftarrow> array_write (board s) y row';
     Some (s\<lparr>board := b\<rparr>)
   }"

text \<open>\<^verbatim>\<open>State::operator[]\<close>, read as a value.\<close>

definition State_operator_index :: "State \<Rightarrow> Position \<Rightarrow> cint option" where
  "State_operator_index s pos = do {
     row \<leftarrow> array_read (board s) (pos_y pos);
     array_read row (pos_x pos)
   }"

definition Kill :: "State \<Rightarrow> int \<Rightarrow> State option" where
  "Kill s agentID = do {
     a \<leftarrow> array_read (agents s) agentID;
     if \<not> dead a then do {
       as \<leftarrow> array_write (agents s) agentID (a\<lparr>dead := True\<rparr>);
       Some (s\<lparr>agents := as, aliveAgents := int32_wrap (aliveAgents s - 1)\<rparr>)
     } else Some s
   }"

text \<open>The variadic overload \<^verbatim>\<open>Kill(agentID, args...)\<close>: \<^verbatim>\<open>Kill(agentID); Kill(args...);\<close>, which
  ends in the single-argument overload when one argument is left.\<close>

fun Kill_variadic :: "State \<Rightarrow> int \<Rightarrow> int list \<Rightarrow> State option" where
  "Kill_variadic s agentID [] = Kill s agentID"
| "Kill_variadic s agentID (a # args) = do { s' \<leftarrow> Kill s agentID; Kill_variadic s' a args }"

text \<open>The number of agents whose \<^verbatim>\<open>dead\<close> flag is set, and the relation of the alive counter
  to it.\<close>

definition dead_count :: "State \<Rightarrow> int" where
  "dead_count s = int (length (filter dead (agents s)))"

definition alive_invariant :: "State \<Rightarrow> bool" where
  "alive_invariant s \<longleftrightarrow> aliveAgents s = AGENT_COUNT - dead_count s"

text \<open>The number of agents named in a list of ids whose \<^verbatim>\<open>dead\<close> flag is not yet set.\<close>

definition alive_among :: "State \<Rightarrow> int list \<Rightarrow> nat" where
  "alive_among s ids =
     length (filter (\<lambda>a. int a \<in> set ids \<and> \<not> dead (agents s ! a)) [0..<length (agents s)])"

text \<open>The same agents as a set: \<open>alive_among\<close> is its cardinality.\<close>

definition alive_set :: "State \<Rightarrow> int list \<Rightarrow> nat set" where
  "alive_set s ids = {a. a < length (agents s) \<and> int a \<in> set ids \<and> \<not> dead (agents s ! a)}"

text \<open>An example state: an empty board, the four agents in the corners, both queues empty.\<close>

definition start_State :: State where
  "start_State = State_init (replicate 11 (replicate 11 PASSAGE))
     [(0, 0), (10, 0), (10, 10), (0, 10)] (replicate 20 0)
     (replicate 20 \<lparr>flame_position = \<lparr>pos_x = 0, pos_y = 0\<rparr>, flame_timeLeft = 0,
        flame_strength = 0\<rparr>)"

section \<open>Facts about the cell classification macros\<close>

lemma int_div_eq_iff:
  fixes a c q :: int
  assumes "0 < c"
  shows "a div c = q \<longleftrightarrow> q * c \<le> a \<and> a < (q + 1) * c"
proof
  assume "a div c = q"
  then have "a = q * c + a mod c"
    using div_mult_mod_eq [of a c] by simp
  moreover have "0 \<le> a mod c" "a mod c < c"
    using assms by simp_all
  ultimately show "q * c \<le> a \<and> a < (q + 1) * c"
    by (simp add: algebra_simps)
next
  assume b: "q * c \<le> a \<and> a < (q + 1) * c"
  have "a = c * q + (a - q * c)"
    by (simp add: algebra_simps)
  moreover have "0 \<le> a - q * c" "a - q * c < c"
    using b by (simp_all add: algebra_simps)
  ultimately show "a div c = q"
    by (rule int_div_pos_eq)
qed

lemma IS_WOOD_sint: "IS_WOOD x \<longleftrightarrow> 512 \<le> sint x \<and> sint x < 768"
proof -
  have "IS_WOOD x \<longleftrightarrow> sint (signed_drop_bit 8 x) = sint (2 :: cint)"
    unfolding IS_WOOD_def by (simp only: word_eq_iff_signed [where ?'a = int])
  also have "\<dots> \<longleftrightarrow> sint x div 256 = 2"
    by (simp add: sint_signed_drop_bit_eq drop_bit_eq_div)
  also have "\<dots> \<longleftrightarrow> 512 \<le> sint x \<and> sint x < 768"
    by (simp add: int_div_eq_iff)
  finally show ?thesis .
qed

lemma IS_FLAME_sint: "IS_FLAME x \<longleftrightarrow> 262144 \<le> sint x \<and> sint x < 327680"
proof -
  have "IS_FLAME x \<longleftrightarrow> sint (signed_drop_bit 16 x) = sint (4 :: cint)"
    unfolding IS_FLAME_def by (simp only: word_eq_iff_signed [where ?'a = int])
  also have "\<dots> \<longleftrightarrow> sint x div 65536 = 4"
    by (simp add: sint_signed_drop_bit_eq drop_bit_eq_div)
  also have "\<dots> \<longleftrightarrow> 262144 \<le> sint x \<and> sint x < 327680"
    by (simp add: int_div_eq_iff)
  finally show ?thesis .
qed

lemma IS_POWERUP_sint: "IS_POWERUP x \<longleftrightarrow> 5 < sint x \<and> sint x < 9"
  by (simp add: IS_POWERUP_def word_sless_alt)

lemma IS_POWERUP_cases: "IS_POWERUP x \<longleftrightarrow> x = EXTRABOMB \<or> x = INCRRANGE \<or> x = KICK"
proof -
  have "IS_POWERUP x \<longleftrightarrow> sint x = 6 \<or> sint x = 7 \<or> sint x = 8"
    unfolding IS_POWERUP_sint by auto
  also have "\<dots> \<longleftrightarrow>
      sint x = sint (6 :: cint) \<or> sint x = sint (7 :: cint) \<or> sint x = sint (8 :: cint)"
    by simp
  also have "\<dots> \<longleftrightarrow> x = 6 \<or> x = 7 \<or> x = 8"
    by (simp only: word_eq_iff_signed [where ?'a = int, symmetric])
  finally show ?thesis by (simp add: EXTRABOMB_def INCRRANGE_def KICK_def)
qed

section \<open>Facts about the bomb codec\<close>

text \<open>The source's hexadecimal masks are four-bit fields at offsets 0, 4, 8, 12 and 16.\<close>

lemma hex_F: "(0xF :: cint) = mask 4"
  by (simp add: mask_eq_exp_minus_1)

lemma hex_F0: "(0xF0 :: cint) = push_bit 4 (mask 4)"
  by (simp add: mask_eq_exp_minus_1)

lemma hex_F00: "(0xF00 :: cint) = push_bit 8 (mask 4)"
  by (simp add: mask_eq_exp_minus_1)

lemma hex_F000: "(0xF000 :: cint) = push_bit 12 (mask 4)"
  by (simp add: mask_eq_exp_minus_1)

lemma hex_F0000: "(0xF0000 :: cint) = push_bit 16 (mask 4)"
  by (simp add: mask_eq_exp_minus_1)

lemma hex_FFFF: "(0xFFFF :: cint) = mask 16"
  by (simp add: mask_eq_exp_minus_1)

lemma BMB_POS_X_bits: "BMB_POS_X b = take_bit 4 b"
  unfolding BMB_POS_X_def hex_F
  by (rule bit_word_eqI) (auto simp add: bit_simps)

lemma BMB_POS_Y_bits: "BMB_POS_Y b = take_bit 4 (drop_bit 4 b)"
  unfolding BMB_POS_Y_def hex_F0
  by (rule bit_word_eqI) (auto simp add: bit_simps)

lemma BMB_ID_bits: "BMB_ID b = take_bit 4 (drop_bit 8 b)"
  unfolding BMB_ID_def hex_F00
  by (rule bit_word_eqI) (auto simp add: bit_simps)

lemma BMB_STRENGTH_bits: "BMB_STRENGTH b = take_bit 4 (drop_bit 12 b)"
  unfolding BMB_STRENGTH_def hex_F000
  by (rule bit_word_eqI) (auto simp add: bit_simps)

lemma BMB_TIME_bits: "BMB_TIME b = take_bit 4 (drop_bit 16 b)"
  unfolding BMB_TIME_def hex_F0000
  by (rule bit_word_eqI) (auto simp add: bit_simps)

lemmas BMB_bits =
  BMB_POS_X_bits BMB_POS_Y_bits BMB_ID_bits BMB_STRENGTH_bits BMB_TIME_bits

text \<open>An argument between 0 and 15 (as a signed \<^verbatim>\<open>int\<close>) has only its low four bits set.\<close>

lemma nibble:
  assumes "0 \<le>s (v::cint)" "v \<le>s 15"
  shows "take_bit 4 v = v"
proof -
  have s: "0 \<le> sint v" "sint v \<le> 15"
    using assms by (simp_all add: word_sle_eq)
  have u: "uint v = sint v"
    using s by (simp add: uint_sint take_bit_int_eq_self)
  have "uint (take_bit 4 v) = uint v"
    using s by (simp add: unsigned_take_bit_eq u take_bit_int_eq_self)
  then show ?thesis by (simp only: word_uint_eq_iff)
qed

text \<open>With an in-range argument the setters' \<^verbatim>\<open>+\<close> adds into cleared bits: it is a bitwise or.\<close>

lemma SetBombPosition_or:
  "SetBombPosition b (take_bit 4 x) (take_bit 4 y) =
     ((b AND NOT (mask 4) AND NOT (push_bit 4 (mask 4))) OR take_bit 4 x)
       OR push_bit 4 (take_bit 4 y)"
proof -
  have 1: "(b AND NOT (mask 4) AND NOT (push_bit 4 (mask 4))) + take_bit 4 x =
      (b AND NOT (mask 4) AND NOT (push_bit 4 (mask 4))) OR take_bit 4 x"
    by (rule disjunctive_add_eq_or, rule bit_word_eqI) (auto simp add: bit_simps)
  have 2: "((b AND NOT (mask 4) AND NOT (push_bit 4 (mask 4))) OR take_bit 4 x)
        + push_bit 4 (take_bit 4 y) =
      ((b AND NOT (mask 4) AND NOT (push_bit 4 (mask 4))) OR take_bit 4 x)
        OR push_bit 4 (take_bit 4 y)"
    by (rule disjunctive_add_eq_or, rule bit_word_eqI) (auto simp add: bit_simps)
  show ?thesis
    unfolding SetBombPosition_def cmask0_4_def cmask4_8_def hex_F hex_F0 1 2 ..
qed

lemma SetBombID_or:
  "SetBombID b (take_bit 4 v) =
     (b AND NOT (push_bit 8 (mask 4))) OR push_bit 8 (take_bit 4 v)"
  unfolding SetBombID_def cmask8_12_def hex_F00
  by (rule disjunctive_add_eq_or, rule bit_word_eqI) (auto simp add: bit_simps)

lemma SetBombStrength_or:
  "SetBombStrength b (take_bit 4 v) =
     (b AND NOT (push_bit 12 (mask 4))) OR push_bit 12 (take_bit 4 v)"
  unfolding SetBombStrength_def cmask12_16_def hex_F000
  by (rule disjunctive_add_eq_or, rule bit_word_eqI) (auto simp add: bit_simps)

lemma SetBombTime_or:
  "SetBombTime b (take_bit 4 v) = (b AND mask 16) OR push_bit 16 (take_bit 4 v)"
  unfolding SetBombTime_def cmask16_r_def hex_FFFF
  by (rule disjunctive_add_eq_or, rule bit_word_eqI) (auto simp add: bit_simps)

lemma SetBombPosition_fields:
  "BMB_POS_X (SetBombPosition b (take_bit 4 x) (take_bit 4 y)) = take_bit 4 x"
  "BMB_POS_Y (SetBombPosition b (take_bit 4 x) (take_bit 4 y)) = take_bit 4 y"
  "BMB_ID (SetBombPosition b (take_bit 4 x) (take_bit 4 y)) = BMB_ID b"
  "BMB_STRENGTH (SetBombPosition b (take_bit 4 x) (take_bit 4 y)) = BMB_STRENGTH b"
  "BMB_TIME (SetBombPosition b (take_bit 4 x) (take_bit 4 y)) = BMB_TIME b"
  unfolding SetBombPosition_or BMB_bits
  by (rule bit_word_eqI; auto simp add: bit_simps)+

lemma SetBombID_fields:
  "BMB_ID (SetBombID b (take_bit 4 v)) = take_bit 4 v"
  "BMB_POS_X (SetBombID b (take_bit 4 v)) = BMB_POS_X b"
  "BMB_POS_Y (SetBombID b (take_bit 4 v)) = BMB_POS_Y b"
  "BMB_STRENGTH (SetBombID b (take_bit 4 v)) = BMB_STRENGTH b"
  "BMB_TIME (SetBombID b (take_bit 4 v)) = BMB_TIME b"
  unfolding SetBombID_or BMB_bits
  by (rule bit_word_eqI; auto simp add: bit_simps)+

lemma SetBombStrength_fields:
  "BMB_STRENGTH (SetBombStrength b (take_bit 4 v)) = take_bit 4 v"
  "BMB_POS_X (SetBombStrength b (take_bit 4 v)) = BMB_POS_X b"
  "BMB_POS_Y (SetBombStrength b (take_bit 4 v)) = BMB_POS_Y b"
  "BMB_ID (SetBombStrength b (take_bit 4 v)) = BMB_ID b"
  "BMB_TIME (SetBombStrength b (take_bit 4 v)) = BMB_TIME b"
  unfolding SetBombStrength_or BMB_bits
  by (rule bit_word_eqI; auto simp add: bit_simps)+

lemma SetBombTime_fields:
  "BMB_TIME (SetBombTime b (take_bit 4 v)) = take_bit 4 v"
  "BMB_POS_X (SetBombTime b (take_bit 4 v)) = BMB_POS_X b"
  "BMB_POS_Y (SetBombTime b (take_bit 4 v)) = BMB_POS_Y b"
  "BMB_ID (SetBombTime b (take_bit 4 v)) = BMB_ID b"
  "BMB_STRENGTH (SetBombTime b (take_bit 4 v)) = BMB_STRENGTH b"
  unfolding SetBombTime_or BMB_bits
  by (rule bit_word_eqI; auto simp add: bit_simps)+

text \<open>The fields read as unsigned numbers: field \<open>k\<close> is \<open>(b div 2 ^ k) mod 16\<close>.\<close>

lemma field_uint: "uint (take_bit 4 (drop_bit k (b :: cint))) = (uint b div 2 ^ k) mod 16"
proof -
  have "uint b mod 4294967296 = uint b"
    using uint_bounded [of b] by simp
  then show ?thesis
    by (subst unsigned_take_bit_eq, subst unsigned_drop_bit_eq)
      (simp add: take_bit_eq_mod drop_bit_eq_div)
qed

lemma field_eqI:
  "(uint (b::cint) div 2 ^ k) mod 16 = (uint (b'::cint) div 2 ^ k) mod 16 \<Longrightarrow>
   take_bit 4 (drop_bit k b) = take_bit 4 (drop_bit k b')"
  by (simp only: word_uint_eq_iff field_uint)

text \<open>
  With a fuse of at least one the subtraction in \<^verbatim>\<open>ReduceBombTimer\<close> borrows from no bit
  above the time field and does not wrap.
\<close>

lemma sub_mult_div:
  fixes a c m :: int
  assumes "c \<noteq> 0"
  shows "(a - c * m) div c = a div c - m"
  using div_mult_self2 [OF assms, of a "- m"] by simp

lemma sub_mult_mod:
  fixes a c m :: int
  shows "(a - c * m) mod c = a mod c"
  using mod_mult_self2 [of a c "- m"] by simp

lemma pred_mod:
  fixes q :: int
  assumes "1 \<le> q mod 16"
  shows "(q - 1) mod 16 = q mod 16 - 1"
proof -
  have "q - 1 = 16 * (q div 16) + (q mod 16 - 1)"
    by simp
  moreover have "0 \<le> q mod 16 - 1"
    using assms by simp
  moreover have "q mod 16 - 1 < 16"
    using pos_mod_bound [of 16 q] by simp
  ultimately show ?thesis
    by (rule int_mod_pos_eq)
qed

lemma ReduceBombTimer_uint:
  assumes "1 \<le>s BMB_TIME b"
  shows "uint (ReduceBombTimer b) = uint b - 65536" and "1 \<le> (uint b div 65536) mod 16"
proof -
  have "1 \<le> sint (BMB_TIME b)"
    using assms by (simp add: word_sle_eq)
  moreover have "sint (BMB_TIME b) = uint (BMB_TIME b)"
  proof -
    have "uint (BMB_TIME b) < 16"
      by (simp add: BMB_TIME_bits field_uint)
    then have hi: "uint (BMB_TIME b) < 2 ^ 31" by simp
    have "- (2 ^ 31) \<le> (0::int)" by simp
    also have "0 \<le> uint (BMB_TIME b)" by simp
    finally have lo: "- (2 ^ 31) \<le> uint (BMB_TIME b)" .
    from lo hi have "signed_take_bit 31 (uint (BMB_TIME b)) = uint (BMB_TIME b)"
      by (rule signed_take_bit_int_eq_self)
    then show ?thesis
      by (simp add: sint_uint)
  qed
  ultimately show t: "1 \<le> (uint b div 65536) mod 16"
    using field_uint [of 16 b] by (simp add: BMB_TIME_bits)
  have "uint b div 65536 \<noteq> 0"
    using t by auto
  moreover have "0 \<le> uint b div 65536"
    using uint_ge_0 [of b] by (simp add: pos_imp_zdiv_nonneg_iff)
  ultimately have "1 \<le> uint b div 65536"
    by linarith
  then have "65536 \<le> uint b"
    using int_div_eq_iff [of 65536 "uint b" "uint b div 65536"] by simp
  then have "uint (65536 :: cint) \<le> uint b" by simp
  then show "uint (ReduceBombTimer b) = uint b - 65536"
    unfolding ReduceBombTimer_def by (simp add: uint_sub_if')
qed

lemma ReduceBombTimer_time:
  assumes "1 \<le>s BMB_TIME b"
  shows "BMB_TIME (ReduceBombTimer b) = BMB_TIME b - 1"
proof -
  note r = ReduceBombTimer_uint [OF assms]
  have f: "uint (BMB_TIME b) = uint b div 65536 mod 16"
    using field_uint [of 16 b] by (simp add: BMB_TIME_bits)
  have "uint (1 :: cint) \<le> uint (BMB_TIME b)"
    using r(2) f by simp
  then have 1: "uint (BMB_TIME b - 1) = uint (BMB_TIME b) - 1"
    by (simp add: uint_sub_if')
  have "(uint b - 65536) div 65536 = uint b div 65536 - 1"
    using sub_mult_div [of 65536 "uint b" 1] by simp
  then have "uint (BMB_TIME (ReduceBombTimer b)) = (uint b div 65536 - 1) mod 16"
    using field_uint [of 16 "ReduceBombTimer b"] by (simp add: BMB_TIME_bits r(1))
  also have "\<dots> = uint b div 65536 mod 16 - 1"
    using r(2) by (rule pred_mod)
  finally have "uint (BMB_TIME (ReduceBombTimer b)) = uint (BMB_TIME b) - 1"
    by (simp only: f)
  with 1 show ?thesis by (simp only: word_uint_eq_iff)
qed

lemma ReduceBombTimer_other:
  assumes "1 \<le>s BMB_TIME b"
  shows "BMB_POS_X (ReduceBombTimer b) = BMB_POS_X b"
    and "BMB_POS_Y (ReduceBombTimer b) = BMB_POS_Y b"
    and "BMB_ID (ReduceBombTimer b) = BMB_ID b"
    and "BMB_STRENGTH (ReduceBombTimer b) = BMB_STRENGTH b"
proof -
  note r = ReduceBombTimer_uint [OF assms(1)]
  have 0: "(uint b - 65536) mod 16 = uint b mod 16"
    using sub_mult_mod [of "uint b" 16 4096] by simp
  have 4: "(uint b - 65536) div 16 mod 16 = uint b div 16 mod 16"
    using sub_mult_div [of 16 "uint b" 4096] sub_mult_mod [of "uint b div 16" 16 256] by simp
  have 8: "(uint b - 65536) div 256 mod 16 = uint b div 256 mod 16"
    using sub_mult_div [of 256 "uint b" 256] sub_mult_mod [of "uint b div 256" 16 16] by simp
  have 12: "(uint b - 65536) div 4096 mod 16 = uint b div 4096 mod 16"
    using sub_mult_div [of 4096 "uint b" 16] sub_mult_mod [of "uint b div 4096" 16 1] by simp
  have "take_bit 4 (drop_bit 0 (ReduceBombTimer b)) = take_bit 4 (drop_bit 0 b)"
    by (rule field_eqI) (simp add: r(1) 0)
  then show "BMB_POS_X (ReduceBombTimer b) = BMB_POS_X b"
    by (simp add: BMB_POS_X_bits)
  show "BMB_POS_Y (ReduceBombTimer b) = BMB_POS_Y b"
    unfolding BMB_POS_Y_bits by (rule field_eqI) (simp add: r(1) 4)
  show "BMB_ID (ReduceBombTimer b) = BMB_ID b"
    unfolding BMB_ID_bits by (rule field_eqI) (simp add: r(1) 8)
  show "BMB_STRENGTH (ReduceBombTimer b) = BMB_STRENGTH b"
    unfolding BMB_STRENGTH_bits by (rule field_eqI) (simp add: r(1) 12)
qed

section \<open>Claims about the packed encodings\<close>

text \<open>
  Claim C4. For every bomb and every argument between 0 and 15, each setter
  (\<^verbatim>\<open>SetBombPosition\<close>, \<^verbatim>\<open>SetBombID\<close>, \<^verbatim>\<open>SetBombStrength\<close>, \<^verbatim>\<open>SetBombTime\<close>) makes the accessor
  of the field it sets return the value just set, and every other accessor
  (\<^verbatim>\<open>BMB_POS_X\<close>, \<^verbatim>\<open>BMB_POS_Y\<close>, \<^verbatim>\<open>BMB_ID\<close>, \<^verbatim>\<open>BMB_STRENGTH\<close>, \<^verbatim>\<open>BMB_TIME\<close>) returns what it
  returned before the call. The bomb is any 32-bit value: the accessors mask their field,
  so every bomb has its fields in range.
\<close>

theorem bomb_setters_independent:
  assumes "0 \<le>s x" "x \<le>s 15" and "0 \<le>s y" "y \<le>s 15"
    and "0 \<le>s ident" "ident \<le>s 15"
    and "0 \<le>s strength" "strength \<le>s 15"
    and "0 \<le>s time" "time \<le>s 15"
  shows "BMB_POS_X (SetBombPosition bomb x y) = x
       \<and> BMB_POS_Y (SetBombPosition bomb x y) = y
       \<and> BMB_ID (SetBombPosition bomb x y) = BMB_ID bomb
       \<and> BMB_STRENGTH (SetBombPosition bomb x y) = BMB_STRENGTH bomb
       \<and> BMB_TIME (SetBombPosition bomb x y) = BMB_TIME bomb
       \<and> BMB_ID (SetBombID bomb ident) = ident
       \<and> BMB_POS_X (SetBombID bomb ident) = BMB_POS_X bomb
       \<and> BMB_POS_Y (SetBombID bomb ident) = BMB_POS_Y bomb
       \<and> BMB_STRENGTH (SetBombID bomb ident) = BMB_STRENGTH bomb
       \<and> BMB_TIME (SetBombID bomb ident) = BMB_TIME bomb
       \<and> BMB_STRENGTH (SetBombStrength bomb strength) = strength
       \<and> BMB_POS_X (SetBombStrength bomb strength) = BMB_POS_X bomb
       \<and> BMB_POS_Y (SetBombStrength bomb strength) = BMB_POS_Y bomb
       \<and> BMB_ID (SetBombStrength bomb strength) = BMB_ID bomb
       \<and> BMB_TIME (SetBombStrength bomb strength) = BMB_TIME bomb
       \<and> BMB_TIME (SetBombTime bomb time) = time
       \<and> BMB_POS_X (SetBombTime bomb time) = BMB_POS_X bomb
       \<and> BMB_POS_Y (SetBombTime bomb time) = BMB_POS_Y bomb
       \<and> BMB_ID (SetBombTime bomb time) = BMB_ID bomb
       \<and> BMB_STRENGTH (SetBombTime bomb time) = BMB_STRENGTH bomb"
proof -
  have x: "take_bit 4 x = x" and y: "take_bit 4 y = y"
    and i: "take_bit 4 ident = ident" and s: "take_bit 4 strength = strength"
    and t: "take_bit 4 time = time"
    using assms by (simp_all only: nibble)
  show ?thesis
    using SetBombPosition_fields [of bomb x y] SetBombID_fields [of bomb ident]
      SetBombStrength_fields [of bomb strength] SetBombTime_fields [of bomb time]
    unfolding x y i s t by simp
qed

theorem bomb_setters_independent_witness:
  "BMB_POS_X (SetBombPosition 0xA7C53 10 2) = 10
   \<and> BMB_POS_Y (SetBombPosition 0xA7C53 10 2) = 2
   \<and> BMB_ID (SetBombPosition 0xA7C53 10 2) = BMB_ID 0xA7C53
   \<and> BMB_ID (SetBombID 0xA7C53 3) = 3
   \<and> BMB_TIME (SetBombID 0xA7C53 3) = BMB_TIME 0xA7C53
   \<and> BMB_STRENGTH (SetBombStrength 0xA7C53 15) = 15
   \<and> BMB_POS_Y (SetBombStrength 0xA7C53 15) = BMB_POS_Y 0xA7C53
   \<and> BMB_TIME (SetBombTime 0xA7C53 0) = 0
   \<and> BMB_STRENGTH (SetBombTime 0xA7C53 0) = BMB_STRENGTH 0xA7C53"
proof -
  have h: "0 \<le>s (10::cint)" "(10::cint) \<le>s 15" "0 \<le>s (2::cint)" "(2::cint) \<le>s 15"
    "0 \<le>s (3::cint)" "(3::cint) \<le>s 15" "0 \<le>s (15::cint)" "(15::cint) \<le>s 15"
    "0 \<le>s (0::cint)" "(0::cint) \<le>s 15"
    by (simp_all add: word_sle_eq)
  from bomb_setters_independent [OF h, of "0xA7C53"] show ?thesis
    by simp
qed

text \<open>
  Claim C5. For every bomb whose \<^verbatim>\<open>BMB_TIME\<close> is at least one, \<^verbatim>\<open>ReduceBombTimer\<close> lowers
  \<^verbatim>\<open>BMB_TIME\<close> by exactly one and leaves \<^verbatim>\<open>BMB_POS_X\<close>, \<^verbatim>\<open>BMB_POS_Y\<close>, \<^verbatim>\<open>BMB_ID\<close> and
  \<^verbatim>\<open>BMB_STRENGTH\<close> as they were.
\<close>

theorem ReduceBombTimer_decrements:
  assumes "1 \<le>s BMB_TIME bomb"
  shows "BMB_TIME (ReduceBombTimer bomb) = BMB_TIME bomb - 1
       \<and> BMB_POS_X (ReduceBombTimer bomb) = BMB_POS_X bomb
       \<and> BMB_POS_Y (ReduceBombTimer bomb) = BMB_POS_Y bomb
       \<and> BMB_ID (ReduceBombTimer bomb) = BMB_ID bomb
       \<and> BMB_STRENGTH (ReduceBombTimer bomb) = BMB_STRENGTH bomb"
  using ReduceBombTimer_time [OF assms] ReduceBombTimer_other [OF assms] by simp

theorem ReduceBombTimer_decrements_witness:
  "1 \<le>s BMB_TIME 0xA7C53
   \<and> BMB_TIME 0xA7C53 = 10
   \<and> BMB_TIME (ReduceBombTimer 0xA7C53) = 9
   \<and> BMB_POS_X (ReduceBombTimer 0xA7C53) = BMB_POS_X 0xA7C53
   \<and> BMB_POS_Y (ReduceBombTimer 0xA7C53) = BMB_POS_Y 0xA7C53
   \<and> BMB_ID (ReduceBombTimer 0xA7C53) = BMB_ID 0xA7C53
   \<and> BMB_STRENGTH (ReduceBombTimer 0xA7C53) = BMB_STRENGTH 0xA7C53"
proof -
  have t: "BMB_TIME 0xA7C53 = 10"
    by (simp add: BMB_TIME_def)
  have h: "1 \<le>s BMB_TIME 0xA7C53"
    unfolding t by (simp add: word_sle_eq)
  from ReduceBombTimer_decrements [OF h] h t show ?thesis
    by simp
qed

text \<open>
  Claim C10. The classification macros \<^verbatim>\<open>IS_WOOD\<close>, \<^verbatim>\<open>IS_FLAME\<close> and \<^verbatim>\<open>IS_POWERUP\<close> are
  pairwise mutually exclusive, and \<^verbatim>\<open>IS_WALKABLE\<close> holds exactly for \<^verbatim>\<open>PASSAGE\<close> and the
  three power-up items \<^verbatim>\<open>EXTRABOMB\<close>, \<^verbatim>\<open>INCRRANGE\<close>, \<^verbatim>\<open>KICK\<close>. The statement is for every
  32-bit cell value \<open>x\<close>, so in particular for each of the defined encodings (\<^verbatim>\<open>PASSAGE\<close>,
  \<^verbatim>\<open>RIGID\<close>, \<^verbatim>\<open>WOOD + flag\<close>, \<^verbatim>\<open>BOMB\<close>, \<^verbatim>\<open>FLAMES + payload\<close>, \<^verbatim>\<open>FOG\<close>, the power-ups and
  \<^verbatim>\<open>AGENT0\<close> to \<^verbatim>\<open>AGENT3\<close>).
\<close>

theorem cell_classification:
  "\<not> (IS_WOOD x \<and> IS_FLAME x)
   \<and> \<not> (IS_WOOD x \<and> IS_POWERUP x)
   \<and> \<not> (IS_FLAME x \<and> IS_POWERUP x)
   \<and> (IS_WALKABLE x \<longleftrightarrow> x = PASSAGE \<or> x = EXTRABOMB \<or> x = INCRRANGE \<or> x = KICK)"
proof -
  have "\<not> (IS_WOOD x \<and> IS_FLAME x)"
    by (simp add: IS_WOOD_sint IS_FLAME_sint)
  moreover have "\<not> (IS_WOOD x \<and> IS_POWERUP x)"
    by (simp add: IS_WOOD_sint IS_POWERUP_sint)
  moreover have "\<not> (IS_FLAME x \<and> IS_POWERUP x)"
    by (simp add: IS_FLAME_sint IS_POWERUP_sint)
  moreover have "IS_WALKABLE x \<longleftrightarrow> x = PASSAGE \<or> x = EXTRABOMB \<or> x = INCRRANGE \<or> x = KICK"
    unfolding IS_WALKABLE_def IS_POWERUP_cases PASSAGE_def by blast
  ultimately show ?thesis by blast
qed

section \<open>Facts about the board state\<close>


lemma array_read_Some:
  "array_read a i = Some v \<longleftrightarrow> 0 \<le> i \<and> i < int (length a) \<and> v = a ! nat i"
  by (auto simp add: array_read_def)

lemma array_write_Some:
  "array_write a i v = Some a' \<longleftrightarrow> 0 \<le> i \<and> i < int (length a) \<and> a' = a[nat i := v]"
  by (auto simp add: array_write_def)

lemma length_filter_update:
  "i < length xs \<Longrightarrow> \<not> P (xs ! i) \<Longrightarrow> P y \<Longrightarrow>
   length (filter P (xs[i := y])) = Suc (length (filter P xs))"
proof (induction xs arbitrary: i)
  case Nil
  then show ?case by simp
next
  case (Cons a xs)
  then show ?case by (cases i) simp_all
qed

text \<open>The 32-bit wrap-around: the identity on 32-bit values, and compatible with subtraction.\<close>

lemma int32_wrap_id: "is_int32 v \<Longrightarrow> int32_wrap v = v"
  unfolding is_int32_def int32_wrap_def by (intro signed_take_bit_int_eq_self) simp_all

lemma is_int32_wrap: "is_int32 (int32_wrap v)"
  unfolding is_int32_def int32_wrap_def
  using signed_take_bit_int_greater_eq_minus_exp [of 31 v] signed_take_bit_int_less_exp [of 31 v]
  by (rule conjI)

lemma int32_wrap_diff: "int32_wrap (int32_wrap a - b) = int32_wrap (a - b)"
proof -
  have "signed_take_bit 31 (signed_take_bit 31 a - b)
      = signed_take_bit 31 (signed_take_bit 31 (signed_take_bit 31 a) - signed_take_bit 31 b)"
    by (simp only: signed_take_bit_diff)
  also have "\<dots> = signed_take_bit 31 (signed_take_bit 31 a - signed_take_bit 31 b)"
    by simp
  also have "\<dots> = signed_take_bit 31 (a - b)"
    by (rule signed_take_bit_diff)
  finally show ?thesis
    by (simp add: int32_wrap_def)
qed

text \<open>What a call of Kill does, for an agent id inside the array.\<close>

lemma Kill_in_range:
  assumes "0 \<le> i" "i < int (length (agents s))"
  shows "Kill s i = Some (if dead (agents s ! nat i) then s
     else s\<lparr>agents := (agents s)[nat i := (agents s ! nat i)\<lparr>dead := True\<rparr>],
            aliveAgents := int32_wrap (aliveAgents s - 1)\<rparr>)"
  using assms by (simp add: Kill_def array_read_def array_write_def)

lemma Kill_Some_range:
  assumes "Kill s i = Some s'"
  shows "0 \<le> i \<and> i < int (length (agents s))"
  using assms by (auto simp add: Kill_def array_read_def split: if_splits bind_splits)

lemma Kill_dead:
  assumes "Kill s i = Some s'"
  shows "dead (agents s' ! nat i)" "length (agents s') = length (agents s)"
    "\<And>j. j < length (agents s) \<Longrightarrow> dead (agents s ! j) \<Longrightarrow> dead (agents s' ! j)"
    "\<And>j. j \<noteq> nat i \<Longrightarrow> agents s' ! j = agents s ! j"
  using Kill_Some_range [OF assms] assms
  by (auto simp add: Kill_in_range nth_list_update split: if_splits)

lemma Kill_alive_invariant:
  assumes "alive_invariant s" "Kill s i = Some s'" "int (length (agents s)) = AGENT_COUNT"
  shows "alive_invariant s'"
proof -
  note r = Kill_Some_range [OF assms(2)]
  have "0 \<le> dead_count s" "dead_count s \<le> 4"
    using assms(3) length_filter_le [of dead "agents s"]
    by (simp_all add: dead_count_def AGENT_COUNT_def)
  then have "is_int32 (aliveAgents s - 1)"
    using assms(1) by (simp add: alive_invariant_def AGENT_COUNT_def is_int32_def)
  then have w: "int32_wrap (aliveAgents s - 1) = aliveAgents s - 1"
    by (rule int32_wrap_id)
  show ?thesis
  proof (cases "dead (agents s ! nat i)")
    case True
    then show ?thesis using assms r by (simp add: Kill_in_range)
  next
    case False
    have "length (filter dead ((agents s)[nat i := (agents s ! nat i)\<lparr>dead := True\<rparr>]))
        = Suc (length (filter dead (agents s)))"
      using r False by (intro length_filter_update) (simp_all add: nat_less_iff)
    moreover have "s' = s\<lparr>agents := (agents s)[nat i := (agents s ! nat i)\<lparr>dead := True\<rparr>],
        aliveAgents := aliveAgents s - 1\<rparr>"
      using assms(2) r False by (simp add: Kill_in_range w)
    ultimately show ?thesis
      using assms(1) by (simp add: alive_invariant_def dead_count_def)
  qed
qed


lemma Kill_variadic_alive_invariant:
  "alive_invariant s \<Longrightarrow> Kill_variadic s i args = Some s' \<Longrightarrow>
   int (length (agents s)) = AGENT_COUNT \<Longrightarrow> alive_invariant s'"
proof (induction args arbitrary: s i)
  case Nil
  then show ?case by (simp add: Kill_alive_invariant)
next
  case (Cons a args)
  from Cons.prems(2) obtain s1 where 1: "Kill s i = Some s1" and 2: "Kill_variadic s1 a args = Some s'"
    by (auto split: bind_splits)
  from Cons.prems(1) 1 Cons.prems(3) have "alive_invariant s1" by (rule Kill_alive_invariant)
  moreover have "int (length (agents s1)) = AGENT_COUNT"
    using Kill_dead(2) [OF 1] Cons.prems(3) by simp
  ultimately show ?case using 2 by (intro Cons.IH [of s1 a])
qed

lemma Kill_total:
  assumes "0 \<le> i" "i < int (length (agents s))"
  shows "\<exists>s'. Kill s i = Some s' \<and> length (agents s') = length (agents s)"
  using assms by (simp add: Kill_in_range)

lemma Kill_variadic_total:
  "0 \<le> i \<Longrightarrow> i < int (length (agents s)) \<Longrightarrow>
   list_all (\<lambda>a. 0 \<le> a \<and> a < int (length (agents s))) args \<Longrightarrow>
    \<exists>s'. Kill_variadic s i args = Some s' \<and> length (agents s') = length (agents s)"
proof (induction args arbitrary: s i)
  case Nil
  then show ?case using Kill_total by simp
next
  case (Cons a args)
  from Kill_total [OF Cons.prems(1,2)] obtain s1
    where 1: "Kill s i = Some s1" and l: "length (agents s1) = length (agents s)"
    by blast
  have "\<exists>s'. Kill_variadic s1 a args = Some s' \<and> length (agents s') = length (agents s1)"
    using Cons.prems(3) by (intro Cons.IH) (simp_all add: l)
  then show ?case using 1 l by auto
qed

lemma dead_count_bounds: "0 \<le> dead_count s \<and> dead_count s \<le> int (length (agents s))"
  by (simp add: dead_count_def)

lemma State_init_alive: "alive_invariant (State_init b ps bs fs)"
  by (simp add: alive_invariant_def dead_count_def State_init_def AgentInfo_init_def filter_map comp_def)


lemma alive_among_card: "alive_among s ids = card (alive_set s ids)"
proof -
  have "alive_among s ids =
      card ({a. int a \<in> set ids \<and> \<not> dead (agents s ! a)} \<inter> set [0..<length (agents s)])"
    unfolding alive_among_def by (rule distinct_length_filter) simp
  also have "{a. int a \<in> set ids \<and> \<not> dead (agents s ! a)} \<inter> set [0..<length (agents s)]
      = alive_set s ids"
    by (auto simp add: alive_set_def)
  finally show ?thesis .
qed

lemma finite_alive_set: "finite (alive_set s ids)"
  by (simp add: alive_set_def)

lemma alive_set_single:
  assumes "0 \<le> i" "i < int (length (agents s))"
  shows "alive_set s [i] = (if dead (agents s ! nat i) then {} else {nat i})"
  using assms by (auto simp add: alive_set_def)

lemma alive_set_Cons: "alive_set s (i # ids) = alive_set s [i] \<union> alive_set s ids"
  by (auto simp add: alive_set_def)

lemma alive_set_Kill:
  assumes "Kill s i = Some s'"
  shows "alive_set s' ids = alive_set s ids - {nat i}"
proof -
  note r = Kill_Some_range [OF assms]
  show ?thesis
  proof (cases "dead (agents s ! nat i)")
    case True
    then have "s' = s" using assms r by (simp add: Kill_in_range)
    then show ?thesis using True by (auto simp add: alive_set_def)
  next
    case False
    then have "agents s' = (agents s)[nat i := (agents s ! nat i)\<lparr>dead := True\<rparr>]"
      using assms r by (auto simp add: Kill_in_range)
    then show ?thesis using r
      by (auto simp add: alive_set_def nth_list_update split: if_splits)
  qed
qed

lemma alive_among_single:
  assumes "0 \<le> i" "i < int (length (agents s))"
  shows "alive_among s [i] = (if dead (agents s ! nat i) then 0 else 1)"
  using assms by (simp add: alive_among_card alive_set_single)

lemma alive_among_le: "alive_among s ids \<le> length (agents s)"
proof -
  have "alive_among s ids \<le> length [0..<length (agents s)]"
    unfolding alive_among_def by (rule length_filter_le)
  then show ?thesis by simp
qed

lemma Kill_aliveAgents:
  assumes "Kill s i = Some s'" "is_int32 (aliveAgents s)"
  shows "aliveAgents s' = int32_wrap (aliveAgents s - int (alive_among s [i]))"
    and "is_int32 (aliveAgents s')"
proof -
  note r = Kill_Some_range [OF assms(1)]
  have n: "alive_among s [i] = (if dead (agents s ! nat i) then 0 else 1)"
    using r by (simp add: alive_among_single)
  show "aliveAgents s' = int32_wrap (aliveAgents s - int (alive_among s [i]))"
  proof (cases "dead (agents s ! nat i)")
    case True
    then have "s' = s" using assms(1) r by (simp add: Kill_in_range)
    then show ?thesis using True n assms(2) by (simp add: int32_wrap_id)
  next
    case False
    then have "aliveAgents s' = int32_wrap (aliveAgents s - 1)"
      using assms(1) r by (auto simp add: Kill_in_range)
    then show ?thesis using False n by simp
  qed
  then show "is_int32 (aliveAgents s')"
    by (simp add: is_int32_wrap)
qed

lemma Kill_variadic_aliveAgents:
  "Kill_variadic s i args = Some s' \<Longrightarrow> is_int32 (aliveAgents s) \<Longrightarrow>
   aliveAgents s' = int32_wrap (aliveAgents s - int (alive_among s (i # args)))"
proof (induction args arbitrary: s i)
  case Nil
  then show ?case by (simp add: Kill_aliveAgents(1))
next
  case (Cons a args)
  from Cons.prems(1) obtain s1
    where 1: "Kill s i = Some s1" and 2: "Kill_variadic s1 a args = Some s'"
    by (auto split: bind_splits)
  note r = Kill_Some_range [OF 1]
  note k = Kill_aliveAgents [OF 1 Cons.prems(2)]
  have "aliveAgents s' = int32_wrap (aliveAgents s1 - int (alive_among s1 (a # args)))"
    using 2 k(2) by (rule Cons.IH)
  also have "\<dots> = int32_wrap (aliveAgents s - int (alive_among s [i])
      - int (alive_among s1 (a # args)))"
    unfolding k(1) by (rule int32_wrap_diff)
  finally have "aliveAgents s' = int32_wrap
      (aliveAgents s - int (card (alive_set s [i]) + card (alive_set s (a # args) - {nat i})))"
    by (simp add: alive_among_card alive_set_Kill [OF 1] algebra_simps)
  moreover have "alive_set s (i # a # args) = alive_set s [i] \<union> (alive_set s (a # args) - {nat i})"
    using r by (subst alive_set_Cons) (auto simp add: alive_set_single, auto simp add: alive_set_def)
  moreover have "alive_set s [i] \<inter> (alive_set s (a # args) - {nat i}) = {}"
    using r by (auto simp add: alive_set_single)
  ultimately show ?case
    by (simp add: alive_among_card card_Un_disjoint finite_alive_set)
qed

lemma State_shape_row:
  assumes "State_shape s" "0 \<le> y" "y < BOARD_SIZE"
  shows "int (length (board s ! nat y)) = BOARD_SIZE"
proof -
  have "nat y < length (board s)"
    using assms by (simp add: State_shape_def nat_less_iff)
  then have "board s ! nat y \<in> set (board s)" by simp
  then show ?thesis
    using assms(1) by (simp add: State_shape_def list_all_iff)
qed

lemma PutItem_in_range:
  assumes "State_shape s" "0 \<le> x" "x < BOARD_SIZE" "0 \<le> y" "y < BOARD_SIZE"
  shows "PutItem s x y item =
    Some (s\<lparr>board := (board s)[nat y := (board s ! nat y)[nat x := item]]\<rparr>)"
  using assms State_shape_row [OF assms(1,4,5)]
  by (simp add: PutItem_def array_read_def array_write_def State_shape_def)

lemma State_operator_index_PutItem:
  assumes "State_shape s" "0 \<le> x" "x < BOARD_SIZE" "0 \<le> y" "y < BOARD_SIZE"
  shows "State_operator_index (s\<lparr>board := (board s)[nat y := (board s ! nat y)[nat x := item]]\<rparr>) pos
     = (if pos_x pos = x \<and> pos_y pos = y then Some item else State_operator_index s pos)"
proof -
  have ly: "nat y < length (board s)"
    using assms by (simp add: State_shape_def nat_less_iff)
  have lx: "nat x < length (board s ! nat y)"
    using State_shape_row [OF assms(1,4,5)] assms(2,3) by (simp add: nat_less_iff)
  show ?thesis
  proof (cases "pos_y pos = y")
    case True
    then show ?thesis
      using ly lx assms(2,4)
      by (auto simp add: State_operator_index_def array_read_def nth_list_update nat_eq_iff)
  next
    case False
    then have "nat (pos_y pos) \<noteq> nat y \<or> pos_y pos < 0"
      using assms(4) by auto
    then show ?thesis
      using False ly by (auto simp add: State_operator_index_def array_read_def nth_list_update)
  qed
qed

lemma State_shape_PutItem:
  assumes "State_shape s" "0 \<le> y" "y < BOARD_SIZE"
  shows "State_shape (s\<lparr>board := (board s)[nat y := (board s ! nat y)[nat x := item]]\<rparr>)"
proof -
  have r: "int (length ((board s ! nat y)[nat x := item])) = BOARD_SIZE"
    using State_shape_row [OF assms] by simp
  have "\<forall>row \<in> set ((board s)[nat y := (board s ! nat y)[nat x := item]]).
      int (length row) = BOARD_SIZE"
  proof
    fix row
    assume "row \<in> set ((board s)[nat y := (board s ! nat y)[nat x := item]])"
    then have "row \<in> insert ((board s ! nat y)[nat x := item]) (set (board s))"
      using set_update_subset_insert by (rule subsetD [rotated])
    then show "int (length row) = BOARD_SIZE"
      using r assms(1) by (auto simp add: State_shape_def list_all_iff)
  qed
  then show ?thesis
    using assms(1) by (simp add: State_shape_def list_all_iff)
qed

text \<open>
  Claim C9. For every state with an 11 by 11 board, every coordinate pair inside the board
  and every item, \<^verbatim>\<open>PutItem(x, y, item)\<close> returns, the board read with \<^verbatim>\<open>State::operator[]\<close> at
  \<^verbatim>\<open>Position{x, y}\<close> is then \<open>item\<close>, and the read at every other position gives what it gave
  before: both accessors index the board as \<^verbatim>\<open>board[y][x]\<close>.
\<close>

theorem PutItem_then_read:
  assumes "State_shape s" and "0 \<le> x" "x < BOARD_SIZE" and "0 \<le> y" "y < BOARD_SIZE"
  shows "\<exists>s'. PutItem s x y item = Some s'
      \<and> State_operator_index s' \<lparr>pos_x = x, pos_y = y\<rparr> = Some item
      \<and> (\<forall>pos. pos \<noteq> \<lparr>pos_x = x, pos_y = y\<rparr> \<longrightarrow>
            State_operator_index s' pos = State_operator_index s pos)
      \<and> State_shape s'"
proof -
  let ?s' = "s\<lparr>board := (board s)[nat y := (board s ! nat y)[nat x := item]]\<rparr>"
  have "PutItem s x y item = Some ?s'"
    using assms by (rule PutItem_in_range)
  moreover have "State_operator_index ?s' \<lparr>pos_x = x, pos_y = y\<rparr> = Some item"
    using State_operator_index_PutItem [OF assms] by simp
  moreover have "State_operator_index ?s' pos = State_operator_index s pos"
    if "pos \<noteq> \<lparr>pos_x = x, pos_y = y\<rparr>" for pos
  proof -
    have "\<not> (pos_x pos = x \<and> pos_y pos = y)"
      using that by (cases pos) auto
    then show ?thesis
      using State_operator_index_PutItem [OF assms, of item pos] by auto
  qed
  moreover have "State_shape ?s'"
    using assms(1,4,5) by (rule State_shape_PutItem)
  ultimately show ?thesis by blast
qed

theorem PutItem_then_read_witness:
  "State_shape start_State
   \<and> (\<exists>s'. PutItem start_State 3 7 KICK = Some s'
      \<and> State_operator_index s' \<lparr>pos_x = 3, pos_y = 7\<rparr> = Some KICK
      \<and> State_operator_index s' \<lparr>pos_x = 7, pos_y = 3\<rparr> = Some PASSAGE)"
proof -
  let ?s = "start_State"
  have sh: "State_shape ?s"
    by (simp add: start_State_def State_shape_def State_init_def FixedQueue_init_def TSize_def BOARD_SIZE_def
        AGENT_COUNT_def MAX_BOMBS_def MAX_BOMBS_PER_AGENT_def list_all_iff)
  have r: "(0::int) \<le> 3" "(3::int) < BOARD_SIZE" "(0::int) \<le> 7" "(7::int) < BOARD_SIZE"
    by (simp_all add: BOARD_SIZE_def)
  have old: "State_operator_index ?s \<lparr>pos_x = 7, pos_y = 3\<rparr> = Some PASSAGE"
    by (simp add: start_State_def State_operator_index_def State_init_def array_read_def)
  from PutItem_then_read [OF sh r, of KICK] old sh show ?thesis
    by auto
qed





lemma alive_set_Kill_variadic:
  "Kill_variadic s i args = Some s' \<Longrightarrow>
   alive_set s' ids = alive_set s ids - nat ` set (i # args)"
proof (induction args arbitrary: s i)
  case Nil
  then show ?case by (simp add: alive_set_Kill)
next
  case (Cons a args)
  from Cons.prems obtain s1
    where 1: "Kill s i = Some s1" and 2: "Kill_variadic s1 a args = Some s'"
    by (auto split: bind_splits)
  have "alive_set s' ids = alive_set s1 ids - nat ` set (a # args)"
    using 2 by (rule Cons.IH)
  then show ?case
    unfolding alive_set_Kill [OF 1] by auto
qed

lemma Kill_variadic_all_dead:
  assumes "Kill_variadic s i args = Some s'"
  shows "alive_among s' (i # args) = 0"
proof -
  have "a \<in> nat ` set (i # args)" if "a \<in> alive_set s (i # args)" for a
  proof -
    from that have "int a \<in> set (i # args)" by (simp add: alive_set_def)
    then have "nat (int a) \<in> nat ` set (i # args)" by (rule imageI)
    then show ?thesis by simp
  qed
  then have "alive_set s' (i # args) = {}"
    unfolding alive_set_Kill_variadic [OF assms] by blast
  then show ?thesis by (simp add: alive_among_card)
qed

lemma alive_among_0_dead:
  assumes "alive_among s ids = 0" "i \<in> set ids" "0 \<le> i" "i < int (length (agents s))"
  shows "dead (agents s ! nat i)"
proof -
  have "alive_set s ids = {}"
    using assms(1) finite_alive_set [of s ids] by (simp add: alive_among_card)
  moreover have "nat i \<in> alive_set s ids" if "\<not> dead (agents s ! nat i)"
    using that assms(2-4) by (simp add: alive_set_def nat_less_iff)
  ultimately show ?thesis by blast
qed

lemma Kill_variadic_noop:
  "alive_among s ids = 0 \<Longrightarrow> set (i # args) \<subseteq> set ids \<Longrightarrow>
   list_all (\<lambda>a. 0 \<le> a \<and> a < int (length (agents s))) (i # args) \<Longrightarrow>
   Kill_variadic s i args = Some s"
proof (induction args arbitrary: i)
  case Nil
  then have "dead (agents s ! nat i)"
    by (intro alive_among_0_dead [of s ids]) simp_all
  then show ?case using Nil.prems(3) by (simp add: Kill_in_range)
next
  case (Cons a args)
  then have "dead (agents s ! nat i)"
    by (intro alive_among_0_dead [of s ids]) simp_all
  then have "Kill s i = Some s"
    using Cons.prems(3) by (simp add: Kill_in_range)
  moreover have "Kill_variadic s a args = Some s"
    using Cons.prems by (intro Cons.IH) simp_all
  ultimately show ?case by simp
qed

text \<open>
  Claim C6. For every state (four agents, \<^verbatim>\<open>aliveAgents\<close> any 32-bit value) and every agent id
  from 0 to 3, \<^verbatim>\<open>Kill(id)\<close> on an agent whose \<^verbatim>\<open>dead\<close> flag is set returns the state unchanged;
  \<^verbatim>\<open>Kill(id)\<close> called twice gives the state that one call gives; and any sequence of \<^verbatim>\<open>Kill\<close>
  calls (the variadic overload is such a sequence) decrements \<^verbatim>\<open>aliveAgents\<close> once for each
  distinct agent among the ids whose flag was not set before, and not more: the counter
  ends at its old value minus the number of those agents, with the 32-bit wrap-around of
  the source's \<^verbatim>\<open>aliveAgents--\<close>, which does not occur when the old value is at least
  \<open>-2^31 + AGENT_COUNT\<close>. After the sequence none of the listed agents is alive, and the same
  sequence again changes nothing.
\<close>

theorem Kill_idempotent:
  assumes "int (length (agents s)) = AGENT_COUNT" and "is_int32 (aliveAgents s)"
    and "0 \<le> agentID" "agentID < AGENT_COUNT"
    and "list_all (\<lambda>a. 0 \<le> a \<and> a < AGENT_COUNT) args"
  shows "(dead (agents s ! nat agentID) \<longrightarrow> Kill s agentID = Some s)
     \<and> (\<exists>s'. Kill s agentID = Some s' \<and> Kill s' agentID = Some s'
            \<and> Kill_variadic s agentID [agentID] = Some s')
     \<and> (\<exists>s'. Kill_variadic s agentID args = Some s'
            \<and> aliveAgents s'
                = int32_wrap (aliveAgents s - int (alive_among s (agentID # args)))
            \<and> (- (2 ^ 31) + AGENT_COUNT \<le> aliveAgents s \<longrightarrow>
                 aliveAgents s' = aliveAgents s - int (alive_among s (agentID # args)))
            \<and> int (alive_among s (agentID # args)) \<le> AGENT_COUNT
            \<and> alive_among s' (agentID # args) = 0
            \<and> Kill_variadic s' agentID args = Some s')"
proof -
  have r: "0 \<le> agentID" "agentID < int (length (agents s))"
    using assms by simp_all
  have 1: "dead (agents s ! nat agentID) \<longrightarrow> Kill s agentID = Some s"
    using r by (simp add: Kill_in_range)
  obtain s1 where k: "Kill s agentID = Some s1"
    using Kill_total [OF r] by blast
  have "dead (agents s1 ! nat agentID)" using k by (rule Kill_dead(1))
  moreover have "agentID < int (length (agents s1))"
    using r Kill_dead(2) [OF k] by simp
  ultimately have kk: "Kill s1 agentID = Some s1"
    using r(1) by (simp add: Kill_in_range)
  have 2: "\<exists>s'. Kill s agentID = Some s' \<and> Kill s' agentID = Some s'
            \<and> Kill_variadic s agentID [agentID] = Some s'"
    using k kk by simp
  have "list_all (\<lambda>a. 0 \<le> a \<and> a < int (length (agents s))) args"
    using assms(1,5) by simp
  with r obtain s2 where v: "Kill_variadic s agentID args = Some s2"
    and l: "length (agents s2) = length (agents s)"
    using Kill_variadic_total by blast
  let ?n = "int (alive_among s (agentID # args))"
  have a: "aliveAgents s2 = int32_wrap (aliveAgents s - ?n)"
    using v assms(2) by (rule Kill_variadic_aliveAgents)
  have n: "?n \<le> AGENT_COUNT"
    using alive_among_le [of s "agentID # args"] assms(1) by simp
  have b: "aliveAgents s2 = aliveAgents s - ?n" if "- (2 ^ 31) + AGENT_COUNT \<le> aliveAgents s"
  proof -
    have "is_int32 (aliveAgents s - ?n)"
      using that n assms(2) by (simp add: is_int32_def)
    then show ?thesis
      unfolding a by (rule int32_wrap_id)
  qed
  have z: "alive_among s2 (agentID # args) = 0"
    using v by (rule Kill_variadic_all_dead)
  have "Kill_variadic s2 agentID args = Some s2"
    using z l r assms(1,5) by (intro Kill_variadic_noop [of s2 "agentID # args"]) simp_all
  with v a b n z have 3: "\<exists>s'. Kill_variadic s agentID args = Some s'
            \<and> aliveAgents s' = int32_wrap (aliveAgents s - ?n)
            \<and> (- (2 ^ 31) + AGENT_COUNT \<le> aliveAgents s \<longrightarrow> aliveAgents s' = aliveAgents s - ?n)
            \<and> ?n \<le> AGENT_COUNT
            \<and> alive_among s' (agentID # args) = 0
            \<and> Kill_variadic s' agentID args = Some s'"
    by simp
  from 1 2 3 show ?thesis by blast
qed

theorem Kill_idempotent_witness:
  "int (length (agents start_State)) = AGENT_COUNT
   \<and> is_int32 (aliveAgents start_State)
   \<and> list_all (\<lambda>a. 0 \<le> a \<and> a < AGENT_COUNT) [2, 1]
   \<and> (\<exists>s'. Kill start_State 2 = Some s' \<and> Kill s' 2 = Some s')
   \<and> (\<exists>s'. Kill_variadic start_State 2 [2, 1] = Some s' \<and> aliveAgents s' = 2)"
proof -
  have l: "int (length (agents start_State)) = AGENT_COUNT"
    by (simp add: start_State_def State_init_def AGENT_COUNT_def)
  have v: "aliveAgents start_State = 4"
    by (simp add: start_State_def State_init_def AGENT_COUNT_def)
  have w: "is_int32 (aliveAgents start_State)"
    unfolding v by (simp add: is_int32_def)
  have i: "(0::int) \<le> 2" "(2::int) < AGENT_COUNT"
    by (simp_all add: AGENT_COUNT_def)
  have a: "list_all (\<lambda>a. 0 \<le> a \<and> a < AGENT_COUNT) [2, 1]"
    by (simp add: AGENT_COUNT_def)
  have n: "alive_among start_State [2, 2, 1] = 2"
    by code_simp
  have c: "- (2 ^ 31) + AGENT_COUNT \<le> (4::int)"
    by (simp add: AGENT_COUNT_def)
  from Kill_idempotent [OF l w i a] l w a c show ?thesis
    unfolding n v by auto
qed

text \<open>
  At the lower 32-bit limit the decrement wraps around, as the source's \<^verbatim>\<open>aliveAgents--\<close> does
  on a two's-complement machine.
\<close>

lemma Kill_wraps_at_lower_limit:
  "map_option aliveAgents (Kill (start_State\<lparr>aliveAgents := - 2147483648\<rparr>) 2)
     = Some 2147483647"
  by (simp add: Kill_def start_State_def State_init_def AgentInfo_init_def array_read_def
      array_write_def int32_wrap_def)

text \<open>
  Claim C7. \<^verbatim>\<open>aliveAgents = AGENT_COUNT -\<close> (number of agents whose \<^verbatim>\<open>dead\<close> flag is set) is an
  invariant: it holds in a freshly constructed state, where no agent is dead and
  \<^verbatim>\<open>aliveAgents\<close> is 4, every call of \<^verbatim>\<open>Kill\<close> with agent ids from 0 to 3, single-argument or
  variadic, returns and preserves it, and a state of four agents that satisfies it has
  \<^verbatim>\<open>aliveAgents\<close> between 0 and 4.
\<close>

theorem aliveAgents_invariant:
  assumes "alive_invariant s" and "int (length (agents s)) = AGENT_COUNT"
    and "0 \<le> agentID" "agentID < AGENT_COUNT"
    and "list_all (\<lambda>a. 0 \<le> a \<and> a < AGENT_COUNT) args"
  shows "alive_invariant (State_init b ps bs fs)
     \<and> aliveAgents (State_init b ps bs fs) = 4
     \<and> list_all (\<lambda>a. \<not> dead a) (agents (State_init b ps bs fs))
     \<and> (\<exists>s'. Kill s agentID = Some s' \<and> alive_invariant s'
            \<and> int (length (agents s')) = AGENT_COUNT)
     \<and> (\<exists>s'. Kill_variadic s agentID args = Some s' \<and> alive_invariant s'
            \<and> int (length (agents s')) = AGENT_COUNT)
     \<and> 0 \<le> aliveAgents s \<and> aliveAgents s \<le> 4"
proof -
  have r: "0 \<le> agentID" "agentID < int (length (agents s))"
    using assms by simp_all
  have 1: "alive_invariant (State_init b ps bs fs)"
    by (rule State_init_alive)
  have 2: "aliveAgents (State_init b ps bs fs) = 4"
    by (simp add: State_init_def AGENT_COUNT_def)
  have 3: "list_all (\<lambda>a. \<not> dead a) (agents (State_init b ps bs fs))"
    by (simp add: State_init_def AgentInfo_init_def list_all_iff)
  obtain s1 where k: "Kill s agentID = Some s1" and l1: "length (agents s1) = length (agents s)"
    using Kill_total [OF r] by blast
  have 4: "\<exists>s'. Kill s agentID = Some s' \<and> alive_invariant s'
            \<and> int (length (agents s')) = AGENT_COUNT"
    using k l1 assms(2) Kill_alive_invariant [OF assms(1) k assms(2)] by simp
  have "list_all (\<lambda>a. 0 \<le> a \<and> a < int (length (agents s))) args"
    using assms(2,5) by simp
  with r obtain s2 where v: "Kill_variadic s agentID args = Some s2"
    and l2: "length (agents s2) = length (agents s)"
    using Kill_variadic_total by blast
  have 5: "\<exists>s'. Kill_variadic s agentID args = Some s' \<and> alive_invariant s'
            \<and> int (length (agents s')) = AGENT_COUNT"
    using v l2 assms(2) Kill_variadic_alive_invariant [OF assms(1) v assms(2)] by simp
  have 6: "0 \<le> aliveAgents s \<and> aliveAgents s \<le> 4"
    using assms(1,2) dead_count_bounds [of s]
    by (simp add: alive_invariant_def AGENT_COUNT_def)
  from 1 2 3 4 5 6 show ?thesis by blast
qed

theorem aliveAgents_invariant_witness:
  "alive_invariant start_State
   \<and> int (length (agents start_State)) = AGENT_COUNT
   \<and> list_all (\<lambda>a. 0 \<le> a \<and> a < AGENT_COUNT) [3, 0, 3]
   \<and> (\<exists>s'. Kill start_State 0 = Some s' \<and> alive_invariant s')
   \<and> (\<exists>s'. Kill_variadic start_State 0 [3, 0, 3] = Some s' \<and> alive_invariant s')
   \<and> 0 \<le> aliveAgents start_State"
proof -
  have inv: "alive_invariant start_State"
    unfolding start_State_def by (rule State_init_alive)
  have l: "int (length (agents start_State)) = AGENT_COUNT"
    by (simp add: start_State_def State_init_def AGENT_COUNT_def)
  have i: "(0::int) \<le> 0" "(0::int) < AGENT_COUNT"
    by (simp_all add: AGENT_COUNT_def)
  have a: "list_all (\<lambda>a. 0 \<le> a \<and> a < AGENT_COUNT) [3, 0, 3]"
    by (simp add: AGENT_COUNT_def)
  from aliveAgents_invariant [OF inv l i a, of "[]" "[]" "[]" "[]"] inv l a show ?thesis
    by blast
qed


section \<open>Facts about the circular queue\<close>


lemma smod_nonneg:
  fixes a b :: int
  assumes "0 \<le> a" "0 < b"
  shows "a smod b = a mod b"
  using assms by (cases "a = 0") (simp_all add: smod_int_alt_def)

lemma c_mod_nonneg:
  assumes "0 \<le> a" "0 < b"
  shows "c_mod a b = Some (a mod b)"
  using assms by (simp add: c_mod_def smod_nonneg)

lemma queue_ok_TSize: "queue_ok q \<Longrightarrow> 0 < TSize q"
  by (simp add: queue_ok_def)

lemma slot_less: "queue_ok q \<Longrightarrow> slot q j < length (queue q)"
proof -
  assume "queue_ok q"
  then have "0 < TSize q" by (rule queue_ok_TSize)
  then have "0 \<le> (index q + j) mod TSize q" "(index q + j) mod TSize q < TSize q"
    by simp_all
  then show ?thesis by (simp add: slot_def TSize_def nat_less_iff)
qed

lemma slot_inj:
  assumes "queue_ok q" "0 \<le> j" "j < TSize q" "0 \<le> k" "k < TSize q" "slot q j = slot q k"
  shows "j = k"
proof -
  have T: "0 < TSize q" using assms(1) by (rule queue_ok_TSize)
  then have "0 \<le> (index q + j) mod TSize q" "0 \<le> (index q + k) mod TSize q"
    by simp_all
  then have "(index q + j) mod TSize q = (index q + k) mod TSize q"
    using assms(6) by (simp add: slot_def)
  then have "TSize q dvd (index q + j) - (index q + k)"
    by (simp add: mod_eq_dvd_iff)
  then have d: "TSize q dvd j - k" by simp
  have "\<bar>j - k\<bar> < TSize q" using assms(2-5) by linarith
  then have "j - k = 0"
    using d T by (metis abs_ge_zero dvd_abs_iff zdvd_not_zless abs_eq_0 order_le_less)
  then show ?thesis by simp
qed

lemma operator_index_ok:
  assumes "queue_ok q" "0 \<le> j"
  shows "operator_index q j = Some (cell q j)"
proof -
  have T: "0 < TSize q" using assms(1) by (rule queue_ok_TSize)
  have "0 \<le> index q + j" using assms by (simp add: queue_ok_def)
  then have "c_mod (index q + j) (TSize q) = Some ((index q + j) mod TSize q)"
    using T by (rule c_mod_nonneg)
  moreover have "0 \<le> (index q + j) mod TSize q" "(index q + j) mod TSize q < TSize q"
    using T by simp_all
  ultimately show ?thesis
    by (simp add: operator_index_def array_read_def cell_def slot_def TSize_def)
qed

lemma PopElem_ok:
  assumes "queue_ok q"
  shows "PopElem q = Some (cell q 0, q\<lparr>index := (index q + 1) mod TSize q, count := count q - 1\<rparr>)"
proof -
  have T: "0 < TSize q" using assms(1) by (rule queue_ok_TSize)
  have i: "0 \<le> index q" "index q < TSize q" using assms by (simp_all add: queue_ok_def)
  have 1: "c_mod (index q + 1) (TSize q) = Some ((index q + 1) mod TSize q)"
    using i T by (intro c_mod_nonneg) simp_all
  have 2: "c_mod (index q) (TSize q) = Some (index q)"
    using i T by (simp add: c_mod_nonneg)
  have ts: "TSize (q\<lparr>index := k, count := c\<rparr>) = TSize q" for k c
    by (simp add: TSize_def)
  have "(index q + 0) mod TSize q = index q"
    using i by simp
  then show ?thesis
    unfolding PopElem_def Let_def ts 1 2
    using i by (simp add: array_read_def cell_def slot_def TSize_def)
qed

lemma NextPos_ok:
  assumes "queue_ok q"
  shows "NextPos q = Some ((index q + count q) mod TSize q)"
proof -
  have T: "0 < TSize q" using assms(1) by (rule queue_ok_TSize)
  have "0 \<le> index q + count q" using assms by (simp add: queue_ok_def)
  then have "c_mod (index q + count q) (TSize q) = Some ((index q + count q) mod TSize q)"
    using T by (rule c_mod_nonneg)
  then show ?thesis using T by (simp add: NextPos_def)
qed

lemma AddElem_ok:
  assumes "queue_ok q"
  shows "AddElem q e = Some (q\<lparr>queue := (queue q)[slot q (count q) := e], count := count q + 1\<rparr>)"
proof -
  have T: "0 < TSize q" using assms(1) by (rule queue_ok_TSize)
  then have "0 \<le> (index q + count q) mod TSize q" "(index q + count q) mod TSize q < TSize q"
    by simp_all
  then show ?thesis
    by (simp add: AddElem_def NextPos_ok [OF assms] array_write_def slot_def TSize_def)
qed


lemma slot_queue_update [simp]:
  "slot (q\<lparr>queue := (queue q)[n := v]\<rparr>) j = slot q j"
  "slot (q\<lparr>queue := (queue q)[n := v], count := c\<rparr>) j = slot q j"
  "slot (q\<lparr>count := c\<rparr>) j = slot q j"
  by (simp_all add: slot_def TSize_def)

lemma cell_queue_update:
  assumes "queue_ok q" "0 \<le> j" "j < TSize q" "0 \<le> k" "k < TSize q"
  shows "cell (q\<lparr>queue := (queue q)[slot q k := v]\<rparr>) j = (if j = k then v else cell q j)"
    and "cell (q\<lparr>queue := (queue q)[slot q k := v], count := c\<rparr>) j
      = (if j = k then v else cell q j)"
proof -
  have "slot q j = slot q k \<longleftrightarrow> j = k"
    using slot_inj [OF assms(1-5)] by auto
  then show "cell (q\<lparr>queue := (queue q)[slot q k := v]\<rparr>) j = (if j = k then v else cell q j)"
    and "cell (q\<lparr>queue := (queue q)[slot q k := v], count := c\<rparr>) j
      = (if j = k then v else cell q j)"
    using slot_less [OF assms(1), of k] by (auto simp add: cell_def nth_list_update)
qed

lemma slot_shift:
  "slot (q\<lparr>index := (index q + n) mod TSize q\<rparr>) j = slot q (n + j)"
  by (simp add: slot_def TSize_def mod_add_left_eq add.assoc)

lemma cell_shift:
  "cell (q\<lparr>index := (index q + n) mod TSize q, count := c\<rparr>) j = cell q (n + j)"
  by (simp add: cell_def slot_shift)

lemma queue_ok_AddElem:
  assumes "queue_ok q" "count q < TSize q"
  shows "queue_ok (q\<lparr>queue := (queue q)[slot q (count q) := e], count := count q + 1\<rparr>)"
  using assms by (simp add: queue_ok_def TSize_def)

lemma queue_ok_PopElem:
  assumes "queue_ok q" "0 < count q"
  shows "queue_ok (q\<lparr>index := (index q + 1) mod TSize q, count := count q - 1\<rparr>)"
proof -
  have "0 < TSize q" using assms(1) by (rule queue_ok_TSize)
  then have "0 \<le> (index q + 1) mod TSize q" "(index q + 1) mod TSize q < TSize q"
    by simp_all
  then show ?thesis
    using assms by (simp add: queue_ok_def TSize_def)
qed

lemma AddElems_ok:
  "queue_ok q \<Longrightarrow> count q + int (length xs) \<le> TSize q \<Longrightarrow>
   \<exists>q'. AddElems q xs = Some q' \<and> queue_ok q' \<and> index q' = index q \<and> TSize q' = TSize q
     \<and> count q' = count q + int (length xs)
     \<and> (\<forall>j. 0 \<le> j \<and> j < count q \<longrightarrow> cell q' j = cell q j)
     \<and> (\<forall>n < length xs. cell q' (count q + int n) = xs ! n)"
proof (induction xs arbitrary: q)
  case Nil
  then show ?case by simp
next
  case (Cons x xs)
  let ?q1 = "q\<lparr>queue := (queue q)[slot q (count q) := x], count := count q + 1\<rparr>"
  have c: "0 \<le> count q" "count q < TSize q"
    using Cons.prems by (simp_all add: queue_ok_def)
  have a: "AddElem q x = Some ?q1"
    using Cons.prems(1) by (rule AddElem_ok)
  have ok1: "queue_ok ?q1"
    using Cons.prems(1) c(2) by (rule queue_ok_AddElem)
  have t1: "TSize ?q1 = TSize q" "index ?q1 = index q" "count ?q1 = count q + 1"
    by (simp_all add: TSize_def)
  have c1: "cell ?q1 j = (if j = count q then x else cell q j)" if "0 \<le> j" "j < TSize q" for j
    using cell_queue_update(2) [OF Cons.prems(1) that c] .
  have "count ?q1 + int (length xs) \<le> TSize ?q1"
    using Cons.prems(2) by (simp add: TSize_def)
  from Cons.IH [OF ok1 this] obtain q' where q': "AddElems ?q1 xs = Some q'" "queue_ok q'"
    "index q' = index ?q1" "TSize q' = TSize ?q1" "count q' = count ?q1 + int (length xs)"
    "\<forall>j. 0 \<le> j \<and> j < count ?q1 \<longrightarrow> cell q' j = cell ?q1 j"
    "\<forall>n < length xs. cell q' (count ?q1 + int n) = xs ! n"
    by blast
  have 1: "AddElems q (x # xs) = Some q'"
    using a q'(1) by simp
  have 2: "cell q' j = cell q j" if "0 \<le> j" "j < count q" for j
  proof -
    have "cell q' j = cell ?q1 j" using q'(6) that by simp
    also have "\<dots> = cell q j" using c1 [of j] that c by simp
    finally show ?thesis .
  qed
  have 3: "cell q' (count q + int n) = (x # xs) ! n" if "n < length (x # xs)" for n
  proof (cases n)
    case 0
    have "cell q' (count q) = cell ?q1 (count q)" using q'(6) c by simp
    also have "\<dots> = x" using c1 [of "count q"] c by simp
    finally show ?thesis using 0 by simp
  next
    case (Suc m)
    then have "m < length xs" using that by simp
    then have "cell q' (count ?q1 + int m) = xs ! m" using q'(7) by simp
    then show ?thesis using Suc by (simp add: ac_simps)
  qed
  show ?case
    using 1 2 3 q'(2-5) t1 by (intro exI [of _ q']) simp
qed

lemma PopElems_ok:
  "queue_ok q \<Longrightarrow> int n \<le> count q \<Longrightarrow>
   PopElems q n = Some (map (\<lambda>k. cell q (int k)) [0..<n],
     q\<lparr>index := (index q + int n) mod TSize q, count := count q - int n\<rparr>)"
proof (induction n arbitrary: q)
  case 0
  then show ?case by (simp add: queue_ok_def)
next
  case (Suc n)
  let ?q1 = "q\<lparr>index := (index q + 1) mod TSize q, count := count q - 1\<rparr>"
  have p: "PopElem q = Some (cell q 0, ?q1)"
    using Suc.prems(1) by (rule PopElem_ok)
  have ok1: "queue_ok ?q1"
    using Suc.prems by (intro queue_ok_PopElem) simp_all
  have "int n \<le> count ?q1" using Suc.prems(2) by simp
  from Suc.IH [OF ok1 this]
  have r: "PopElems ?q1 n = Some (map (\<lambda>k. cell ?q1 (int k)) [0..<n],
     ?q1\<lparr>index := (index ?q1 + int n) mod TSize ?q1, count := count ?q1 - int n\<rparr>)" .
  have m: "cell q 0 # map (\<lambda>k. cell ?q1 (int k)) [0..<n] = map (\<lambda>k. cell q (int k)) [0..<Suc n]"
    unfolding cell_shift
    by (simp only: upt_conv_Cons [of 0 "Suc n"] map_Suc_upt [symmetric] list.map map_map comp_def)
       (simp add: add.commute)
  have e: "?q1\<lparr>index := (index ?q1 + int n) mod TSize ?q1, count := count ?q1 - int n\<rparr>
      = q\<lparr>index := (index q + int (Suc n)) mod TSize q, count := count q - int (Suc n)\<rparr>"
    by (simp add: TSize_def mod_add_left_eq add.assoc)
  show ?case
    using p r m e by simp
qed


lemma queue_ok_init: "storage \<noteq> [] \<Longrightarrow> queue_ok (FixedQueue_init storage)"
  by (simp add: queue_ok_def FixedQueue_init_def TSize_def)

text \<open>
  Claim C1. For every sequence of \<open>n\<close> elements, \<open>1 \<le> n \<le> TSize\<close> (the source instantiates
  \<^verbatim>\<open>TSize = MAX_BOMBS = 20\<close>), pushed with \<^verbatim>\<open>AddElem\<close> into an empty queue, all the calls
  return, \<open>n\<close> successive \<^verbatim>\<open>PopElem\<close> calls return exactly those elements in the order they
  were pushed, and afterwards \<^verbatim>\<open>count\<close> is 0. The queue is a freshly constructed one or any
  other empty queue whose front index is a position of the array.
\<close>

theorem push_pop_FIFO:
  assumes "q = FixedQueue_init storage \<or> (queue_ok q \<and> count q = 0)"
    and "xs \<noteq> []" and "int (length xs) \<le> TSize q"
  shows "\<exists>q' q''. AddElems q xs = Some q' \<and> PopElems q' (length xs) = Some (xs, q'')
     \<and> count q'' = 0"
proof -
  have "storage \<noteq> []" if "q = FixedQueue_init storage"
    using that assms(2,3) by (auto simp add: FixedQueue_init_def TSize_def)
  then have ok: "queue_ok q"
    using assms(1) by (auto simp add: queue_ok_init)
  have c: "count q = 0"
    using assms(1) by (auto simp add: FixedQueue_init_def)
  have "count q + int (length xs) \<le> TSize q"
    using c assms(3) by simp
  from AddElems_ok [OF ok this] obtain q' where q': "AddElems q xs = Some q'" "queue_ok q'"
    "count q' = count q + int (length xs)"
    "\<forall>n < length xs. cell q' (count q + int n) = xs ! n"
    by blast
  let ?q'' = "q'\<lparr>index := (index q' + int (length xs)) mod TSize q',
    count := count q' - int (length xs)\<rparr>"
  have "int (length xs) \<le> count q'"
    using q'(3) c by simp
  with q'(2) have "PopElems q' (length xs) = Some (map (\<lambda>k. cell q' (int k)) [0..<length xs], ?q'')"
    by (rule PopElems_ok)
  moreover have "map (\<lambda>k. cell q' (int k)) [0..<length xs] = xs"
    using q'(4) c by (intro nth_equalityI) simp_all
  moreover have "count ?q'' = 0"
    using q'(3) c by simp
  ultimately show ?thesis
    using q'(1) by (intro exI [of _ q'] exI [of _ ?q'']) simp
qed

theorem push_pop_FIFO_witness:
  "int (length [3, 1, 4, 1, 5 :: Bomb]) \<le> TSize (FixedQueue_init (replicate 20 (0 :: Bomb)))
   \<and> (\<exists>q' q''. AddElems (FixedQueue_init (replicate 20 0)) [3, 1, 4, 1, 5 :: Bomb] = Some q'
          \<and> PopElems q' 5 = Some ([3, 1, 4, 1, 5], q'') \<and> count q'' = 0)"
proof -
  have l: "int (length [3, 1, 4, 1, 5 :: Bomb]) \<le> TSize (FixedQueue_init (replicate 20 (0 :: Bomb)))"
    by (simp add: TSize_def FixedQueue_init_def)
  have n: "[3, 1, 4, 1, 5 :: Bomb] \<noteq> []"
    by simp
  have len: "length [3, 1, 4, 1, 5 :: Bomb] = 5"
    by simp
  from push_pop_FIFO [OF disjI1 [OF refl] n l] have
    "\<exists>q' q''. AddElems (FixedQueue_init (replicate 20 0)) [3, 1, 4, 1, 5 :: Bomb] = Some q'
          \<and> PopElems q' 5 = Some ([3, 1, 4, 1, 5], q'') \<and> count q'' = 0"
    unfolding len .
  with l show ?thesis
    by blast
qed

text \<open>
  Claim C8. For every queue holding \<open>count\<close> elements and every \<open>i\<close> with \<open>0 \<le> i < count\<close>,
  \<^verbatim>\<open>queue[i]\<close> returns the element that the \<open>(i+1)\<close>-th of \<open>i + 1\<close> consecutive \<^verbatim>\<open>PopElem\<close> calls
  returns. \<^verbatim>\<open>operator[]\<close> assigns to no member: the model is a function of the queue that
  returns the element only, so the front index and the count are the same before and
  after, and the pops of the statement start from the very queue that was indexed.
\<close>

theorem operator_index_is_ith_pop:
  assumes "queue_ok q" and "0 \<le> i" "i < count q"
  shows "\<exists>v vs q'. operator_index q i = Some v
     \<and> PopElems q (nat i + 1) = Some (vs @ [v], q') \<and> length vs = nat i"
proof -
  have "int (Suc (nat i)) \<le> count q"
    using assms(2,3) by simp
  with assms(1) have "PopElems q (Suc (nat i)) =
      Some (map (\<lambda>k. cell q (int k)) [0..<Suc (nat i)],
        q\<lparr>index := (index q + int (Suc (nat i))) mod TSize q,
          count := count q - int (Suc (nat i))\<rparr>)"
    by (rule PopElems_ok)
  moreover have "map (\<lambda>k. cell q (int k)) [0..<Suc (nat i)]
      = map (\<lambda>k. cell q (int k)) [0..<nat i] @ [cell q i]"
    using assms(2) by simp
  moreover have "operator_index q i = Some (cell q i)"
    using assms(1,2) by (rule operator_index_ok)
  ultimately show ?thesis
    by (intro exI [of _ "cell q i"] exI [of _ "map (\<lambda>k. cell q (int k)) [0..<nat i]"]
        exI [of _ "q\<lparr>index := (index q + int (Suc (nat i))) mod TSize q,
          count := count q - int (Suc (nat i))\<rparr>"]) simp
qed

theorem operator_index_is_ith_pop_witness:
  "queue_ok \<lparr>queue = [10, 20, 30, 40 :: Bomb], index = 3, count = 3\<rparr>
   \<and> operator_index \<lparr>queue = [10, 20, 30, 40 :: Bomb], index = 3, count = 3\<rparr> 2 = Some 20
   \<and> (\<exists>vs q'. PopElems \<lparr>queue = [10, 20, 30, 40 :: Bomb], index = 3, count = 3\<rparr> 3
          = Some (vs @ [20], q'))"
proof -
  let ?q = "\<lparr>queue = [10, 20, 30, 40 :: Bomb], index = 3, count = 3\<rparr>"
  have ok: "queue_ok ?q"
    by (simp add: queue_ok_def TSize_def)
  have i: "(0::int) \<le> 2" "(2::int) < count ?q"
    by simp_all
  have v: "operator_index ?q 2 = Some 20"
    by (simp add: operator_index_def c_mod_def TSize_def array_read_def smod_int_alt_def)
  have n: "nat 2 + 1 = 3" by simp
  from operator_index_is_ith_pop [OF ok i] ok show ?thesis
    unfolding v n by auto
qed

text \<open>
  Claim C3 does not hold: \<^verbatim>\<open>AddElem\<close> has no capacity check. On a full queue
  \<open>(index + count) % TSize\<close> is the front index, so the call overwrites the front element
  and still increments \<^verbatim>\<open>count\<close>.
\<close>

theorem AddElem_full_counterexample:
  "count \<lparr>queue = [10, 20, 30 :: Bomb], index = 1, count = 3\<rparr>
     = TSize \<lparr>queue = [10, 20, 30 :: Bomb], index = 1, count = 3\<rparr>
   \<and> AddElem \<lparr>queue = [10, 20, 30 :: Bomb], index = 1, count = 3\<rparr> 99
     = Some \<lparr>queue = [10, 99, 30], index = 1, count = 4\<rparr>
   \<and> AddElem \<lparr>queue = [10, 20, 30 :: Bomb], index = 1, count = 3\<rparr> 99
     \<noteq> Some \<lparr>queue = [10, 20, 30], index = 1, count = 3\<rparr>"
  by (simp add: AddElem_def NextPos_def c_mod_def TSize_def array_write_def smod_int_alt_def)

text \<open>
  Claim C3 as amended. For every queue at full capacity (\<open>count = TSize\<close>, the front index a
  position of the array), \<^verbatim>\<open>AddElem\<close> returns; it is not rejected: the new element is stored
  in the slot of the front element, every other slot and the front index are unchanged, and
  \<^verbatim>\<open>count\<close> becomes \<open>TSize + 1\<close>. A caller that wants no effect must check
  \<^verbatim>\<open>RemainingCapacity\<close>, which is 0 here, before the call.
\<close>

theorem AddElem_full_overwrites_front:
  assumes "queue_ok q" and "count q = TSize q"
  shows "RemainingCapacity q = 0
     \<and> AddElem q elem
        = Some (q\<lparr>queue := (queue q)[nat (index q) := elem], count := TSize q + 1\<rparr>)"
proof -
  have "(index q + TSize q) mod TSize q = index q"
    using assms(1) by (simp add: queue_ok_def)
  then have "slot q (count q) = nat (index q)"
    by (simp add: slot_def assms(2))
  then show ?thesis
    using AddElem_ok [OF assms(1), of elem] by (simp add: assms(2) RemainingCapacity_def)
qed

theorem AddElem_full_overwrites_front_witness:
  "queue_ok \<lparr>queue = [10, 20, 30 :: Bomb], index = 1, count = 3\<rparr>
   \<and> AddElem \<lparr>queue = [10, 20, 30 :: Bomb], index = 1, count = 3\<rparr> 99
     = Some \<lparr>queue = [10, 99, 30], index = 1, count = 4\<rparr>"
proof -
  let ?q = "\<lparr>queue = [10, 20, 30 :: Bomb], index = 1, count = 3\<rparr>"
  have ok: "queue_ok ?q"
    by (simp add: queue_ok_def TSize_def)
  have c: "count ?q = TSize ?q"
    by (simp add: TSize_def)
  from AddElem_full_overwrites_front [OF ok c, of 99] ok show ?thesis
    by (simp add: TSize_def)
qed




lemma RemoveAt_loop_done: "\<not> i < count q \<Longrightarrow> RemoveAt_loop q i = Some q"
  by (subst RemoveAt_loop.simps) simp

lemma RemoveAt_loop_step:
  assumes "queue_ok q" "1 \<le> i" "i < count q"
  shows "RemoveAt_loop q i =
    RemoveAt_loop (q\<lparr>queue := (queue q)[slot q (i - 1) := cell q i]\<rparr>) (i + 1)"
proof -
  have T: "0 < TSize q" using assms(1) by (rule queue_ok_TSize)
  let ?ti = "(index q + i) mod TSize q"
  have ti: "0 \<le> ?ti" "?ti < TSize q" using T by simp_all
  have "0 \<le> index q + i" using assms by (simp add: queue_ok_def)
  then have 1: "c_mod (index q + i) (TSize q) = Some ?ti"
    using T by (rule c_mod_nonneg)
  have 2: "array_read (queue q) ?ti = Some (cell q i)"
    using ti by (simp add: array_read_def cell_def slot_def TSize_def)
  have "0 \<le> ?ti - 1 + TSize q" using ti by simp
  then have "c_mod (?ti - 1 + TSize q) (TSize q) = Some ((?ti - 1 + TSize q) mod TSize q)"
    using T by (rule c_mod_nonneg)
  moreover have "(?ti - 1 + TSize q) mod TSize q = (index q + (i - 1)) mod TSize q"
  proof -
    have "(?ti - 1 + TSize q) mod TSize q = (?ti - 1) mod TSize q"
      by (rule mod_add_self2)
    also have "\<dots> = (index q + i - 1) mod TSize q"
      by (rule mod_diff_left_eq)
    also have "index q + i - 1 = index q + (i - 1)"
      by simp
    finally show ?thesis .
  qed
  ultimately have 3: "c_mod (?ti - 1 + TSize q) (TSize q) = Some ((index q + (i - 1)) mod TSize q)"
    by simp
  have d: "0 \<le> (index q + (i - 1)) mod TSize q" "(index q + (i - 1)) mod TSize q < TSize q"
    using T by simp_all
  have 4: "array_write (queue q) ((index q + (i - 1)) mod TSize q) (cell q i)
      = Some ((queue q)[slot q (i - 1) := cell q i])"
    using d by (simp add: array_write_def slot_def TSize_def)
  show ?thesis
    by (subst RemoveAt_loop.simps) (simp add: assms(3) 1 2 3 4)
qed

lemma queue_ok_queue_update:
  "queue_ok q \<Longrightarrow> queue_ok (q\<lparr>queue := (queue q)[n := v]\<rparr>)"
  by (simp add: queue_ok_def TSize_def)

lemma RemoveAt_loop_ok:
  "queue_ok q \<Longrightarrow> 1 \<le> i \<Longrightarrow> i \<le> count q \<Longrightarrow> n = nat (count q - i) \<Longrightarrow>
   \<exists>q'. RemoveAt_loop q i = Some q' \<and> index q' = index q \<and> count q' = count q
     \<and> TSize q' = TSize q
     \<and> (\<forall>j. 0 \<le> j \<and> j < count q \<longrightarrow>
           cell q' j = (if i - 1 \<le> j \<and> j < count q - 1 then cell q (j + 1) else cell q j))"
proof (induction n arbitrary: q i)
  case 0
  then have "RemoveAt_loop q i = Some q"
    by (intro RemoveAt_loop_done) simp
  moreover have "i = count q" using 0 by simp
  ultimately show ?case by auto
next
  case (Suc n)
  let ?q1 = "q\<lparr>queue := (queue q)[slot q (i - 1) := cell q i]\<rparr>"
  have lt: "i < count q" using Suc.prems(4) by simp
  have cT: "count q \<le> TSize q" using Suc.prems(1) by (simp add: queue_ok_def)
  have s: "RemoveAt_loop q i = RemoveAt_loop ?q1 (i + 1)"
    using Suc.prems(1,2) lt by (rule RemoveAt_loop_step)
  have ok1: "queue_ok ?q1"
    using Suc.prems(1) by (rule queue_ok_queue_update)
  have f1: "index ?q1 = index q" "count ?q1 = count q" "TSize ?q1 = TSize q"
    by (simp_all add: TSize_def)
  have c1: "cell ?q1 j = (if j = i - 1 then cell q i else cell q j)" if "0 \<le> j" "j < count q" for j
    using cell_queue_update(1) [OF Suc.prems(1), of j "i - 1" "cell q i"] that Suc.prems(2) lt cT
    by simp
  have "\<exists>q'. RemoveAt_loop ?q1 (i + 1) = Some q' \<and> index q' = index ?q1 \<and> count q' = count ?q1
     \<and> TSize q' = TSize ?q1
     \<and> (\<forall>j. 0 \<le> j \<and> j < count ?q1 \<longrightarrow>
           cell q' j = (if i + 1 - 1 \<le> j \<and> j < count ?q1 - 1 then cell ?q1 (j + 1) else cell ?q1 j))"
    using ok1 Suc.prems(2,4) lt by (intro Suc.IH) simp_all
  then obtain q' where q': "RemoveAt_loop ?q1 (i + 1) = Some q'" "index q' = index q"
    "count q' = count q" "TSize q' = TSize q"
    "\<forall>j. 0 \<le> j \<and> j < count q \<longrightarrow>
           cell q' j = (if i \<le> j \<and> j < count q - 1 then cell ?q1 (j + 1) else cell ?q1 j)"
    unfolding f1 by auto
  have "cell q' j = (if i - 1 \<le> j \<and> j < count q - 1 then cell q (j + 1) else cell q j)"
    if j: "0 \<le> j" "j < count q" for j
  proof -
    have "cell q' j = (if i \<le> j \<and> j < count q - 1 then cell ?q1 (j + 1) else cell ?q1 j)"
      using q'(5) j by simp
    also have "\<dots> = (if i - 1 \<le> j \<and> j < count q - 1 then cell q (j + 1) else cell q j)"
      using j lt Suc.prems(2) c1 [of j] c1 [of "j + 1"] by auto
    finally show ?thesis .
  qed
  then show ?case
    using s q'(1-4) by (intro exI [of _ q']) simp
qed


lemma nth_take_drop_Suc:
  assumes "a < length xs" "Suc n < length xs"
  shows "(take a xs @ drop (Suc a) xs) ! n = (if n < a then xs ! n else xs ! Suc n)"
proof (cases "n < a")
  case True
  then show ?thesis using assms by (simp add: nth_append)
next
  case False
  then have "Suc a + (n - a) = Suc n" by simp
  then show ?thesis using False assms by (simp add: nth_append min_def)
qed

lemma contents_ok:
  assumes "queue_ok q"
  shows "contents q = map (\<lambda>j. Some (cell q (int j))) [0..<nat (count q)]"
  unfolding contents_def using operator_index_ok [OF assms] by simp

lemma cell_count_update [simp]: "cell (q\<lparr>count := c\<rparr>) j = cell q j"
  by (simp add: cell_def)

text \<open>
  Claim C2. For every queue holding \<open>count\<close> elements and every \<open>i\<close> with \<open>0 \<le> i < count\<close>,
  \<^verbatim>\<open>RemoveAt(i)\<close> returns and leaves the queue holding the other \<open>count - 1\<close> elements in their
  previous logical order: the logical contents are the old ones without the \<open>i\<close>-th, the
  count is one less and the front index is unchanged.
\<close>

theorem RemoveAt_removes_ith:
  assumes "queue_ok q" and "0 \<le> i" "i < count q"
  shows "\<exists>q'. RemoveAt q i = Some q' \<and> count q' = count q - 1 \<and> index q' = index q
     \<and> queue_ok q'
     \<and> contents q' = take (nat i) (contents q) @ drop (Suc (nat i)) (contents q)
     \<and> None \<notin> set (contents q)"
proof -
  have "\<exists>q1. RemoveAt_loop q (i + 1) = Some q1 \<and> index q1 = index q \<and> count q1 = count q
     \<and> TSize q1 = TSize q
     \<and> (\<forall>j. 0 \<le> j \<and> j < count q \<longrightarrow>
           cell q1 j = (if i + 1 - 1 \<le> j \<and> j < count q - 1 then cell q (j + 1) else cell q j))"
    using assms by (intro RemoveAt_loop_ok [where n = "nat (count q - (i + 1))"]) simp_all
  then obtain q1 where q1: "RemoveAt_loop q (i + 1) = Some q1" "index q1 = index q"
    "count q1 = count q" "TSize q1 = TSize q"
    "\<forall>j. 0 \<le> j \<and> j < count q \<longrightarrow>
           cell q1 j = (if i \<le> j \<and> j < count q - 1 then cell q (j + 1) else cell q j)"
    by auto
  let ?q' = "q1\<lparr>count := count q1 - 1\<rparr>"
  have r: "RemoveAt q i = Some ?q'"
    using q1(1) by (simp add: RemoveAt_def)
  have ok': "queue_ok ?q'"
    using assms q1(2-4) by (simp add: queue_ok_def TSize_def)
  have c: "contents q = map (\<lambda>j. Some (cell q (int j))) [0..<nat (count q)]"
    using assms(1) by (rule contents_ok)
  have c': "contents ?q' = map (\<lambda>j. Some (cell q1 (int j))) [0..<nat (count q - 1)]"
    using contents_ok [OF ok'] q1(3) by simp
  have "contents ?q' = take (nat i) (contents q) @ drop (Suc (nat i)) (contents q)"
  proof (rule nth_equalityI)
    show "length (contents ?q') = length (take (nat i) (contents q) @ drop (Suc (nat i)) (contents q))"
      using assms(2,3) by (simp add: c c')
  next
    fix n
    assume "n < length (contents ?q')"
    then have n: "int n < count q - 1"
      by (simp add: c')
    then have "contents ?q' ! n = Some (if i \<le> int n then cell q (int n + 1) else cell q (int n))"
      using q1(5) by (simp add: c')
    moreover have "(take (nat i) (contents q) @ drop (Suc (nat i)) (contents q)) ! n
        = Some (if i \<le> int n then cell q (int n + 1) else cell q (int n))"
    proof -
      have l: "nat i < length (contents q)" "Suc n < length (contents q)"
        using assms(2,3) n by (simp_all add: c)
      have "(take (nat i) (contents q) @ drop (Suc (nat i)) (contents q)) ! n
          = (if n < nat i then contents q ! n else contents q ! Suc n)"
        using l by (rule nth_take_drop_Suc)
      also have "contents q ! n = Some (cell q (int n))"
        using l(2) by (simp add: c)
      also have "contents q ! Suc n = Some (cell q (int n + 1))"
        using l(2) by (simp add: c add.commute)
      finally show ?thesis
        using assms(2) by (auto simp add: nat_less_iff)
    qed
    ultimately show "contents ?q' ! n
        = (take (nat i) (contents q) @ drop (Suc (nat i)) (contents q)) ! n"
      by simp
  qed
  moreover have "None \<notin> set (contents q)"
    by (auto simp add: c)
  ultimately show ?thesis
    using r ok' q1(2,3) by (intro exI [of _ ?q']) simp
qed

theorem RemoveAt_removes_ith_witness:
  "queue_ok \<lparr>queue = [10, 20, 30, 40 :: Bomb], index = 3, count = 3\<rparr>
   \<and> contents \<lparr>queue = [10, 20, 30, 40 :: Bomb], index = 3, count = 3\<rparr>
        = [Some 40, Some 10, Some 20]
   \<and> (\<exists>q'. RemoveAt \<lparr>queue = [10, 20, 30, 40 :: Bomb], index = 3, count = 3\<rparr> 1 = Some q'
          \<and> count q' = 2 \<and> contents q' = [Some 40, Some 20])"
proof -
  let ?q = "\<lparr>queue = [10, 20, 30, 40 :: Bomb], index = 3, count = 3\<rparr>"
  have ok: "queue_ok ?q"
    by (simp add: queue_ok_def TSize_def)
  have i: "(0::int) \<le> 1" "(1::int) < count ?q"
    by simp_all
  have c: "contents ?q = [Some 40, Some 10, Some 20]"
    by code_simp
  from RemoveAt_removes_ith [OF ok i] ok c show ?thesis
    unfolding c by auto
qed


end
